theory Spec2Isabelle
  imports Main
begin

section \<open>The ytbot program (cmd/ytbot/main.go)\<close>

text \<open>
  The program is one function, \<open>runApp\<close>, run once per invocation (a cycle): it opens a
  sqlite file, creates its two tables if they are missing, visits every monitored channel
  (scheduler check, YouTube search, Discord webhook, ledger insert) and sweeps old rows.
  The embedding keeps the database contents and the sequence of observable actions (log
  lines, SQL statements, search calls, webhook posts, sleeps) as explicit state; whatever
  the outside world decides (the clock, storage faults, the search results, the webhook's
  answer) is read from a record of oracles indexed by the number of actions done so far.
\<close>

subsection \<open>Configuration\<close>

type_synonym channelName = string
type_synonym channelId = string

text \<open>The table of monitored channels (main.go, lines 56-68). Go's \<open>range\<close> over a map
  visits its entries in an unspecified order, so the channel loop below takes the order of
  the visit as a list.\<close>

definition channelIds :: "(channelName \<times> channelId) list" where
  "channelIds =
    [(''Mentour Pilot'', ''UCwpHKudUkP5tNgmMdexB3ow''),
     (''LewDix Aviation'', ''UCPiPmwDammRsj7ZIzKyc74A''),
     (''The Flying Reporter'', ''UCwqdeuoXeCiI3CNPRFnnBFQ''),
     (''Mentour Now!'', ''UCTbcSRduRJJTMaQhUVqywRw''),
     (''Stefan Drury'', ''UCG1HLA8IEqZ09_C_7u5tUjQ''),
     (''Airforceproud95'', ''UCfoK9LI9vmQQ36zqsFZtNJQ''),
     (''74 Gear'', ''UCovVc-qqwYp8oqwO3Sdzx7w''),
     (''Stig Aviation'', ''UCm64eitQ4ZRTJ-6LPH5RnFg''),
     (''Rebuild Rescue'', ''UCPygLEFniGZmehxouDK-vbw''),
     (''lucaas'', ''UCfb2YpWR9FWTJMjzvAlP0_Q''),
     (''REAL ATC'', ''UC-cpMHfDwhDkoQ7oTK8Y_6w'')]"

text \<open>The three required command line flags (lines 33-52).\<close>

record cliContext =
  apikey :: string
  dbfile :: string
  webhook :: string

subsection \<open>The sqlite store\<close>

text \<open>
  Both tables have the shape \<open>(id TEXT PRIMARY KEY UNIQUE, date TEXT NOT NULL)\<close>. A row
  is a key and a time; a time is the number of seconds since the epoch, which orders like
  the \<open>YYYY-MM-DD HH:MM:SS\<close> text that \<open>datetime('now')\<close> stores and that the DELETE
  statements compare. A table that has not been created yet is \<open>None\<close>.
\<close>

type_synonym row = "string \<times> int"
type_synonym table = "row list"

record db =
  videos_posted :: "table option"
  channel_check_times :: "table option"

datatype sql_error = NoSuchTable | ConstraintFailed | StorageFault

text \<open>\<open>CREATE TABLE IF NOT EXISTS\<close>\<close>

definition create_table_if_not_exists :: "table option \<Rightarrow> table option" where
  "create_table_if_not_exists t = (case t of None \<Rightarrow> Some [] | Some rows \<Rightarrow> Some rows)"

text \<open>\<open>SELECT * FROM t WHERE id=?\<close>\<close>

definition select_by_id :: "table option \<Rightarrow> string \<Rightarrow> sql_error + row list" where
  "select_by_id t k =
     (case t of None \<Rightarrow> Inl NoSuchTable
      | Some rows \<Rightarrow> Inr (filter (\<lambda>r. fst r = k) rows))"

text \<open>\<open>INSERT INTO t (id, date) VALUES (?, datetime('now'))\<close>: the primary key rejects a
  key that is already there.\<close>

definition insert_row :: "table option \<Rightarrow> string \<Rightarrow> int \<Rightarrow> sql_error + table option" where
  "insert_row t k now =
     (case t of None \<Rightarrow> Inl NoSuchTable
      | Some rows \<Rightarrow>
          if k \<in> fst ` set rows then Inl ConstraintFailed
          else Inr (Some (rows @ [(k, now)])))"

text \<open>\<open>DELETE FROM t WHERE date < cutoff\<close>\<close>

definition delete_older :: "table option \<Rightarrow> int \<Rightarrow> sql_error + table option" where
  "delete_older t cutoff =
     (case t of None \<Rightarrow> Inl NoSuchTable
      | Some rows \<Rightarrow> Inr (Some (filter (\<lambda>r. \<not> snd r < cutoff) rows)))"

text \<open>The nine SQL statements of \<open>runApp\<close>, in the order of the source.\<close>

datatype stmt =
    CreateVideosPosted
  | CreateChannelCheckTimes
  | SelectCheck channelId
  | InsertCheck channelId
  | SelectVideo string
  | InsertVideo string
  | DeleteVideos
  | DeleteChecks
  | Vacuum

text \<open>What a statement does to the store when it runs at time \<open>now\<close>: the new store and
  the rows it returns, or an error. \<open>datetime('now','-30 days')\<close> is \<open>now - 2592000\<close>
  and \<open>datetime('now','-12 hours')\<close> is \<open>now - 43200\<close>.\<close>

fun sql :: "stmt \<Rightarrow> int \<Rightarrow> db \<Rightarrow> sql_error + (db \<times> row list)" where
  "sql CreateVideosPosted now d =
     Inr (d\<lparr>videos_posted := create_table_if_not_exists (videos_posted d)\<rparr>, [])"
| "sql CreateChannelCheckTimes now d =
     Inr (d\<lparr>channel_check_times := create_table_if_not_exists (channel_check_times d)\<rparr>, [])"
| "sql (SelectCheck c) now d =
     (case select_by_id (channel_check_times d) c of
        Inl e \<Rightarrow> Inl e | Inr rs \<Rightarrow> Inr (d, rs))"
| "sql (InsertCheck c) now d =
     (case insert_row (channel_check_times d) c now of
        Inl e \<Rightarrow> Inl e | Inr t \<Rightarrow> Inr (d\<lparr>channel_check_times := t\<rparr>, []))"
| "sql (SelectVideo v) now d =
     (case select_by_id (videos_posted d) v of
        Inl e \<Rightarrow> Inl e | Inr rs \<Rightarrow> Inr (d, rs))"
| "sql (InsertVideo v) now d =
     (case insert_row (videos_posted d) v now of
        Inl e \<Rightarrow> Inl e | Inr t \<Rightarrow> Inr (d\<lparr>videos_posted := t\<rparr>, []))"
| "sql DeleteVideos now d =
     (case delete_older (videos_posted d) (now - 2592000) of
        Inl e \<Rightarrow> Inl e | Inr t \<Rightarrow> Inr (d\<lparr>videos_posted := t\<rparr>, []))"
| "sql DeleteChecks now d =
     (case delete_older (channel_check_times d) (now - 43200) of
        Inl e \<Rightarrow> Inl e | Inr t \<Rightarrow> Inr (d\<lparr>channel_check_times := t\<rparr>, []))"
| "sql Vacuum now d = Inr (d, [])"

subsection \<open>The outside world and the state of a run\<close>

text \<open>A search result item (\<open>item.Id.Kind\<close>, \<open>item.Id.VideoId\<close>, \<open>item.Snippet.Title\<close>,
  \<open>item.Snippet.ChannelTitle\<close>).\<close>

record SearchResult =
  Kind :: string
  VideoId :: string
  Title :: string
  ChannelTitle :: string

text \<open>What \<open>whClient.Do\<close> gives back: an error, or a response with a status code.\<close>

datatype http_result = TransportError | Status nat

datatype level = Debug | Info | Error | Fatal

datatype event =
    Log level string
  | Sql stmt bool
  | SearchCall channelId int
  | Post string string
  | Sleep nat

text \<open>
  The oracles of one invocation. \<open>clock\<close>, \<open>storage_fault\<close>, \<open>search_do\<close>,
  \<open>webhook_do\<close> and \<open>rows_close_fails\<close> are asked at a step, the number of events
  recorded so far; \<open>storage_fault\<close> says whether the statement submitted at that step
  fails for a reason outside the store's contents (a full disk, a locked file). \<open>UnescapeString\<close> is Go's \<open>html.UnescapeString\<close>, a function of the
  standard library and not of this repository: it is a parameter of the model.
\<close>

record world =
  clock :: "nat \<Rightarrow> int"
  sql_open_fails :: "string \<Rightarrow> bool"
  storage_fault :: "nat \<Rightarrow> stmt \<Rightarrow> bool"
  new_service_fails :: "string \<Rightarrow> bool"
  search_do :: "nat \<Rightarrow> channelId \<Rightarrow> int \<Rightarrow> SearchResult list option"
  new_request_fails :: "string \<Rightarrow> bool"
  webhook_do :: "nat \<Rightarrow> string \<Rightarrow> string \<Rightarrow> http_result"
  rows_close_fails :: "nat \<Rightarrow> bool"
  UnescapeString :: "string \<Rightarrow> string"

record state =
  store :: db
  trace :: "event list"

text \<open>How an invocation ends: \<open>runApp\<close> returns nil, returns an error, the process exits
  with status 1 inside \<open>log.Fatal().Msg\<close>, or it panics.\<close>

datatype outcome = ReturnNil | ReturnErr | Exit1 | Panic

type_synonym step = "outcome option \<times> state"

definition emit :: "event \<Rightarrow> state \<Rightarrow> state" where
  "emit e s = s\<lparr>trace := trace s @ [e]\<rparr>"

definition logmsg :: "level \<Rightarrow> string \<Rightarrow> state \<Rightarrow> state" where
  "logmsg l m s = emit (Log l m) s"

text \<open>\<open>log.Fatal()...Msg(m)\<close>: the line is written and the process exits.\<close>

definition fatal :: "string \<Rightarrow> state \<Rightarrow> step" where
  "fatal m s = (Some Exit1, logmsg Fatal m s)"

text \<open>Sequencing: the rest runs only when nothing has ended the run.\<close>

definition and_then :: "step \<Rightarrow> (state \<Rightarrow> step) \<Rightarrow> step" where
  "and_then r f = (case r of (Some a, s) \<Rightarrow> (Some a, s) | (None, s) \<Rightarrow> f s)"

text \<open>\<open>db.Exec\<close> / \<open>db.Query\<close>: the statement runs against the store at the clock's
  reading, unless the storage fails for a reason of its own. A failed statement leaves
  the store as it was.\<close>

definition db_exec :: "world \<Rightarrow> stmt \<Rightarrow> state \<Rightarrow> (sql_error + row list) \<times> state" where
  "db_exec w q s =
     (let n = length (trace s) in
      if storage_fault w n q then (Inl StorageFault, emit (Sql q False) s)
      else case sql q (clock w n) (store s) of
             Inl e \<Rightarrow> (Inl e, emit (Sql q False) s)
           | Inr (d, rs) \<Rightarrow> (Inr rs, emit (Sql q True) (s\<lparr>store := d\<rparr>)))"

subsection \<open>The body of \<open>runApp\<close>\<close>

text \<open>The webhook's JSON body (line 205):
  \<^verbatim>\<open>fmt.Sprintf(`{"content": "New video from **%s**\nhttps://youtu.be/%s"}`,
       html.UnescapeString(item.Snippet.ChannelTitle), item.Id.VideoId)\<close>
  The format is a raw string, so \<open>\n\<close> is a backslash and the letter n.\<close>

definition message :: "(string \<Rightarrow> string) \<Rightarrow> SearchResult \<Rightarrow> string" where
  \<open>message unescape item =
     ''{"content": "New video from **'' @ unescape (ChannelTitle item) @ ''**'' @
     [CHR 0x5C] @ ''nhttps://youtu.be/'' @ VideoId item @ ''"}''\<close>

text \<open>Lines 201-226: the item has not been posted yet.\<close>

definition post_item :: "world \<Rightarrow> cliContext \<Rightarrow> SearchResult \<Rightarrow> state \<Rightarrow> step" where
  "post_item w c item s0 =
     (let s1 = logmsg Debug ''posting item'' s0;
          data = message (UnescapeString w) item
      in if new_request_fails w (webhook c) then fatal ''error preparing http request'' s1
         else
           (let res = webhook_do w (length (trace s1)) (webhook c) data;
                s2 = emit (Post (webhook c) data) s1
            in case res of
                 TransportError \<Rightarrow> fatal ''error preparing http request'' s2
               | Status code \<Rightarrow>
                   (let s3 = (if code \<noteq> 204
                              then logmsg Error ''unexpected http response code'' s2 else s2)
                    in case db_exec w (InsertVideo (VideoId item)) s3 of
                         (Inl e, s4) \<Rightarrow> fatal ''error inserting video into db'' s4
                       | (Inr rs, s4) \<Rightarrow> (None, s4))))"

text \<open>Lines 180-238: one item of the search response.\<close>

definition process_item :: "world \<Rightarrow> cliContext \<Rightarrow> SearchResult \<Rightarrow> state \<Rightarrow> step" where
  "process_item w c item s0 =
     and_then
       (if Kind item = ''youtube#video'' then
          (case db_exec w (SelectVideo (VideoId item)) s0 of
             (Inl e, s1) \<Rightarrow> fatal ''error querying db'' s1
           | (Inr rs, s1) \<Rightarrow>
               and_then
                 (if rs \<noteq> [] then (None, logmsg Debug ''item already posted'' s1)
                  else post_item w c item s1)
                 (\<lambda>s2. if rows_close_fails w (length (trace s2))
                       then fatal ''error closing rows after SELECT'' s2
                       else (None, s2)))
        else (None, logmsg Debug ''skipping as item is not video'' s0))
       (\<lambda>s3. (None, emit (Sleep 10) s3))"

fun process_items :: "world \<Rightarrow> cliContext \<Rightarrow> SearchResult list \<Rightarrow> state \<Rightarrow> step" where
  "process_items w c [] s = (None, s)"
| "process_items w c (item # items) s =
     and_then (process_item w c item s) (process_items w c items)"

text \<open>Lines 139-239: one monitored channel. The cutoff is 48 hours before \<open>time.Now()\<close>.\<close>

definition process_channel ::
  "world \<Rightarrow> cliContext \<Rightarrow> channelName \<times> channelId \<Rightarrow> state \<Rightarrow> step" where
  "process_channel w c ch s0 =
     (let cId = snd ch;
          publishedAfter = clock w (length (trace s0)) - 172800
      in case db_exec w (SelectCheck cId) s0 of
           (Inl e, s1) \<Rightarrow> fatal ''error querying db'' s1
         | (Inr rs, s1) \<Rightarrow>
             if rs \<noteq> []
             then (None, logmsg Debug ''channel checked less than 12 hours ago, skipping'' s1)
             else
               (case db_exec w (InsertCheck cId) s1 of
                  (Inl e, s2) \<Rightarrow> fatal ''error inserting video into db'' s2
                | (Inr rs', s2) \<Rightarrow>
                    (let s3 = logmsg Info ''checking for new videos'' s2;
                         response = search_do w (length (trace s3)) cId publishedAfter;
                         s4 = emit (SearchCall cId publishedAfter) s3
                     in case response of
                          None \<Rightarrow> (Some Panic, s4)
                        | Some items \<Rightarrow> process_items w c items s4)))"

fun process_channels ::
  "world \<Rightarrow> cliContext \<Rightarrow> (channelName \<times> channelId) list \<Rightarrow> state \<Rightarrow> step" where
  "process_channels w c [] s = (None, s)"
| "process_channels w c (ch # chs) s =
     and_then (process_channel w c ch s) (process_channels w c chs)"

text \<open>Lines 109-129: the two tables are created if required.\<close>

definition bootstrap :: "world \<Rightarrow> state \<Rightarrow> step" where
  "bootstrap w s0 =
     (let s1 = logmsg Debug ''creating videos_posted table if required'' s0
      in case db_exec w CreateVideosPosted s1 of
           (Inl e, s2) \<Rightarrow> fatal ''error creating table videos_posted'' s2
         | (Inr rs, s2) \<Rightarrow>
             (let s3 = logmsg Debug ''creating channel_check_times table if required'' s2
              in case db_exec w CreateChannelCheckTimes s3 of
                   (Inl e, s4) \<Rightarrow> fatal ''error creating table channel_check_times'' s4
                 | (Inr rs', s4) \<Rightarrow> (None, s4)))"

text \<open>Lines 241-254: the retention sweep.\<close>

definition cleanup :: "world \<Rightarrow> state \<Rightarrow> step" where
  "cleanup w s0 =
     (let s1 = logmsg Debug ''cleaning db'' s0
      in case db_exec w DeleteVideos s1 of
           (Inl e, s2) \<Rightarrow>
             fatal ''error deleting old videos_posted video records from db'' s2
         | (Inr rs, s2) \<Rightarrow>
             (case db_exec w DeleteChecks s2 of
                (Inl e, s3) \<Rightarrow>
                  fatal ''error deleting old channel_check_times records from db'' s3
              | (Inr rs', s3) \<Rightarrow>
                  (case db_exec w Vacuum s3 of
                     (Inl e, s4) \<Rightarrow> fatal ''error vacuuming db'' s4
                   | (Inr rs'', s4) \<Rightarrow> (None, s4))))"

text \<open>Lines 96-257. \<open>order\<close> is the order in which \<open>range channelIds\<close> visits the
  channels; \<open>d\<close> is the content of the database file when the program starts.\<close>

definition runApp ::
  "world \<Rightarrow> cliContext \<Rightarrow> (channelName \<times> channelId) list \<Rightarrow> db \<Rightarrow> outcome \<times> state" where
  "runApp w c order d =
     (let s0 = logmsg Debug ''opening sqlite database''
                 (logmsg Info ''started'' \<lparr>store = d, trace = []\<rparr>)
      in if sql_open_fails w (dbfile c) then (ReturnErr, s0)
         else
           (case and_then (bootstrap w s0)
                   (\<lambda>s1. if new_service_fails w (apikey c)
                         then fatal ''Error creating new YouTube client'' s1
                         else and_then (process_channels w c order s1) (cleanup w)) of
              (Some a, s) \<Rightarrow> (a, s)
            | (None, s) \<Rightarrow> (ReturnNil, s)))"

text \<open>Successive invocations on the same database file: each has its own world and its
  own order of visit, and starts from the store the previous one left, however it ended.\<close>

fun cycles ::
  "cliContext \<Rightarrow> (world \<times> (channelName \<times> channelId) list) list \<Rightarrow> db \<Rightarrow>
     (outcome \<times> state) list" where
  "cycles c [] d = []"
| "cycles c (wo # rest) d =
     (let r = runApp (fst wo) c (snd wo) d in r # cycles c rest (store (snd r)))"

section \<open>Vocabulary of the properties\<close>

text \<open>The keys and the rows of a table, and the primary key's uniqueness.\<close>

definition keys :: "table option \<Rightarrow> string set" where
  "keys t = (case t of None \<Rightarrow> {} | Some rows \<Rightarrow> fst ` set rows)"

definition rows_of :: "table option \<Rightarrow> row set" where
  "rows_of t = (case t of None \<Rightarrow> {} | Some rows \<Rightarrow> set rows)"

definition keys_distinct :: "table option \<Rightarrow> bool" where
  "keys_distinct t = (case t of None \<Rightarrow> True | Some rows \<Rightarrow> distinct (map fst rows))"

text \<open>The events that handling one search result can record: log lines and sleeps for
  any item; a ledger lookup, a ledger insert and a webhook post only for a video, and only
  for that video.\<close>

definition item_event :: "world \<Rightarrow> cliContext \<Rightarrow> SearchResult \<Rightarrow> event \<Rightarrow> bool" where
  "item_event w c item e =
     (case e of
        Log l m \<Rightarrow> True
      | Sleep n \<Rightarrow> True
      | Sql q b \<Rightarrow> Kind item = ''youtube#video'' \<and>
          (q = SelectVideo (VideoId item) \<or> q = InsertVideo (VideoId item))
      | Post u body \<Rightarrow> Kind item = ''youtube#video'' \<and> u = webhook c \<and>
          body = message (UnescapeString w) item
      | SearchCall ch t \<Rightarrow> False)"

text \<open>The statements of the channel loop (lines 139-239), and the states the loop can
  reach: it records events and runs these statements, nothing else.\<close>

fun loop_stmt :: "stmt \<Rightarrow> bool" where
  "loop_stmt (SelectCheck c) = True"
| "loop_stmt (InsertCheck c) = True"
| "loop_stmt (SelectVideo v) = True"
| "loop_stmt (InsertVideo v) = True"
| "loop_stmt q = False"

fun is_sql :: "event \<Rightarrow> bool" where
  "is_sql (Sql q b) = True"
| "is_sql e = False"

inductive loop_steps :: "world \<Rightarrow> state \<Rightarrow> state \<Rightarrow> bool" for w :: world where
  same: "loop_steps w s s"
| emitted: "loop_steps w s s1 \<Longrightarrow> \<not> is_sql e \<Longrightarrow> loop_steps w s (emit e s1)"
| executed: "loop_steps w s s1 \<Longrightarrow> loop_stmt q \<Longrightarrow> db_exec w q s1 = (res, s2) \<Longrightarrow>
     loop_steps w s s2"

text \<open>The events of the retention sweep.\<close>

fun sweep_event :: "event \<Rightarrow> bool" where
  "sweep_event (Log l m) = True"
| "sweep_event (Sql q b) = (q = DeleteVideos \<or> q = DeleteChecks \<or> q = Vacuum)"
| "sweep_event e = False"

text \<open>How many times the insert of video \<open>v\<close> into \<open>videos_posted\<close> succeeded.\<close>

definition inserts_ok :: "string \<Rightarrow> event list \<Rightarrow> nat" where
  "inserts_ok v tr = count_list tr (Sql (InsertVideo v) True)"

text \<open>Whether a text occurs in another, as a run of consecutive characters.\<close>

fun starts_with :: "string \<Rightarrow> string \<Rightarrow> bool" where
  "starts_with s [] = True"
| "starts_with [] (p # ps) = False"
| "starts_with (x # xs) (p # ps) = (x = p \<and> starts_with xs ps)"

fun contains :: "string \<Rightarrow> string \<Rightarrow> bool" where
  "contains [] p = starts_with [] p"
| "contains (x # xs) p = (starts_with (x # xs) p \<or> contains xs p)"

subsection \<open>Concrete inputs\<close>

text \<open>
  An unescaping function for the concrete runs below. It replaces the references that
  Go's \<open>html.EscapeString\<close> produces (and \<open>&quot;\<close>) and leaves every other character as
  it is; on the texts used below it agrees with \<open>html.UnescapeString\<close>.
\<close>

definition entities :: "(string \<times> char) list" where
  "entities = [(''&amp;'', CHR ''&''), (''&lt;'', CHR ''<''), (''&gt;'', CHR ''>''),
     (''&quot;'', CHR 0x22), (''&#39;'', CHR 0x27), (''&#34;'', CHR 0x22)]"

definition entity_at :: "string \<Rightarrow> (string \<times> char) option" where
  "entity_at s = List.find (\<lambda>e. take (length (fst e)) s = fst e) entities"

fun unescape_from :: "nat \<Rightarrow> string \<Rightarrow> string" where
  "unescape_from k [] = []"
| "unescape_from (Suc k) (x # xs) = unescape_from k xs"
| "unescape_from 0 (x # xs) =
     (case entity_at (x # xs) of
        Some e \<Rightarrow> snd e # unescape_from (length (fst e) - 1) xs
      | None \<Rightarrow> x # unescape_from 0 xs)"

definition unescape_basic :: "string \<Rightarrow> string" where
  "unescape_basic s = unescape_from 0 s"

definition cli_ex :: cliContext where
  "cli_ex = \<lparr>apikey = ''key'', dbfile = ''ytbot.db'',
     webhook = ''https://discord.test/api/webhooks/1''\<rparr>"

text \<open>A database file that does not exist yet.\<close>

definition fresh :: db where
  "fresh = \<lparr>videos_posted = None, channel_check_times = None\<rparr>"

definition item_v1 :: SearchResult where
  "item_v1 = \<lparr>Kind = ''youtube#video'', VideoId = ''v1'', Title = ''Foo &amp; Bar'',
     ChannelTitle = ''Mentour Pilot''\<rparr>"

definition item_pl :: SearchResult where
  "item_pl = \<lparr>Kind = ''youtube#playlist'', VideoId = [], Title = ''Best of'',
     ChannelTitle = ''Mentour Pilot''\<rparr>"

text \<open>A world in which nothing fails: the clock starts at \<open>t0\<close> and advances one second
  per step, the search finds \<open>item_v1\<close> on the first channel of the table and nothing on
  the others, and the webhook answers 204.\<close>

definition world_ex :: "int \<Rightarrow> world" where
  "world_ex t0 =
     \<lparr>clock = (\<lambda>n. t0 + int n), sql_open_fails = (\<lambda>f. False),
      storage_fault = (\<lambda>n q. False), new_service_fails = (\<lambda>k. False),
      search_do = (\<lambda>n ch t. if ch = ''UCwpHKudUkP5tNgmMdexB3ow'' then Some [item_v1]
                             else Some []),
      new_request_fails = (\<lambda>u. False), webhook_do = (\<lambda>n u b. Status 204),
      rows_close_fails = (\<lambda>n. False), UnescapeString = unescape_basic\<rparr>"

definition state_ex :: state where
  "state_ex = \<lparr>store = \<lparr>videos_posted = Some [], channel_check_times = Some []\<rparr>,
     trace = []\<rparr>"

text \<open>A store with one row past each retention threshold and one row within it, for a
  sweep shortly after time 3000000.\<close>

definition sweep_ex :: state where
  "sweep_ex = \<lparr>store = \<lparr>videos_posted = Some [(''v_old'', 100), (''v_new'', 2990000)],
       channel_check_times = Some [(''UCwpHKudUkP5tNgmMdexB3ow'', 2900000),
                                   (''UCPiPmwDammRsj7ZIzKyc74A'', 2999000)]\<rparr>,
     trace = []\<rparr>"

text \<open>No search call among the events.\<close>

definition no_search :: "event list \<Rightarrow> bool" where
  "no_search tr = (\<forall>e \<in> set tr. \<forall>ch t. e \<noteq> SearchCall ch t)"

text \<open>Every search call of a trace comes after a successful insert of a check mark for
  the same channel.\<close>

definition marked :: "event list \<Rightarrow> bool" where
  "marked tr = (\<forall>pre ch t post. tr = pre @ SearchCall ch t # post \<longrightarrow>
                  Sql (InsertCheck ch) True \<in> set pre)"

text \<open>The state after the first two log lines of \<open>runApp\<close>.\<close>

definition start :: "db \<Rightarrow> state" where
  "start d = \<lparr>store = d, trace = [Log Info ''started'', Log Debug ''opening sqlite database'']\<rparr>"

text \<open>A visit of the first channel of the table only.\<close>

definition order1 :: "(channelName \<times> channelId) list" where
  "order1 = [(''Mentour Pilot'', ''UCwpHKudUkP5tNgmMdexB3ow'')]"

text \<open>A world in which only \<open>VACUUM\<close> fails.\<close>

definition world_vacuum_fails :: world where
  "world_vacuum_fails = (world_ex 1000)\<lparr>storage_fault := (\<lambda>n q. q = Vacuum)\<rparr>"

text \<open>The three statements of the retention sweep.\<close>

definition sweep_stmt :: "stmt \<Rightarrow> bool" where
  "sweep_stmt q = (q = DeleteVideos \<or> q = DeleteChecks \<or> q = Vacuum)"

text \<open>Worlds in which the webhook cannot be reached, and in which it answers 500.\<close>

definition world_webhook_down :: world where
  "world_webhook_down = (world_ex 1000)\<lparr>webhook_do := (\<lambda>n u b. TransportError)\<rparr>"

definition world_webhook_500 :: world where
  "world_webhook_500 = (world_ex 1000)\<lparr>webhook_do := (\<lambda>n u b. Status 500)\<rparr>"

text \<open>The events that handling channel \<open>k\<close> can record.\<close>

definition channel_event :: "world \<Rightarrow> cliContext \<Rightarrow> channelId \<Rightarrow> event \<Rightarrow> bool" where
  "channel_event w c k e =
     ((\<exists>l m. e = Log l m) \<or> (\<exists>b. e = Sql (SelectCheck k) b \<or> e = Sql (InsertCheck k) b) \<or>
      (\<exists>t. e = SearchCall k t) \<or> (\<exists>item. item_event w c item e))"

text \<open>The events of the schema bootstrap.\<close>

fun bootstrap_event :: "event \<Rightarrow> bool" where
  "bootstrap_event (Log l m) = True"
| "bootstrap_event (Sql q b) = (q = CreateVideosPosted \<or> q = CreateChannelCheckTimes)"
| "bootstrap_event e = False"

text \<open>A store whose only check mark is two weeks old at time 1300000.\<close>

definition stale_ex :: state where
  "stale_ex = \<lparr>store = \<lparr>videos_posted = Some [],
       channel_check_times = Some [(''UCwpHKudUkP5tNgmMdexB3ow'', 90400)]\<rparr>,
     trace = []\<rparr>"

text \<open>A store with a check mark written at time 1000, and a world whose clock stays
  within 12 hours of it.\<close>

definition mark_ex :: db where
  "mark_ex = \<lparr>videos_posted = Some [],
     channel_check_times = Some [(''UCwpHKudUkP5tNgmMdexB3ow'', 1000)]\<rparr>"

definition world_soon :: world where
  "world_soon = (world_ex 2000)\<lparr>clock := (\<lambda>n. 2000 + int (min n 5000))\<rparr>"

text \<open>A search result whose title and channel title both carry an HTML entity, and a
  world in which the search finds it on the first channel of the table.\<close>

definition item_v2 :: SearchResult where
  "item_v2 = \<lparr>Kind = ''youtube#video'', VideoId = ''v2'', Title = ''Foo &amp; Bar'',
     ChannelTitle = ''Planes &amp; Pilots''\<rparr>"

definition world_amp :: world where
  "world_amp = (world_ex 1000)\<lparr>search_do :=
     (\<lambda>n ch t. if ch = ''UCwpHKudUkP5tNgmMdexB3ow'' then Some [item_v2] else Some [])\<rparr>"

text \<open>The candidates of an invocation: the items of the responses of its search calls.\<close>

definition candidate :: "world \<Rightarrow> SearchResult \<Rightarrow> bool" where
  "candidate w item = (\<exists>n ch t items. search_do w n ch t = Some items \<and> item \<in> set items)"



section \<open>Basic facts\<close>

lemma trace_emit [simp]: "trace (emit e s) = trace s @ [e]"
  by (simp add: emit_def)

lemma store_emit [simp]: "store (emit e s) = store s"
  by (simp add: emit_def)

lemma trace_logmsg [simp]: "trace (logmsg l m s) = trace s @ [Log l m]"
  by (simp add: logmsg_def)

lemma store_logmsg [simp]: "store (logmsg l m s) = store s"
  by (simp add: logmsg_def)

lemma fatal_simp [simp]: "fatal m s = (Some Exit1, logmsg Fatal m s)"
  by (simp add: fatal_def)

lemma and_then_None [simp]: "and_then (None, s) f = f s"
  by (simp add: and_then_def)

lemma and_then_Some [simp]: "and_then (Some a, s) f = (Some a, s)"
  by (simp add: and_then_def)

text \<open>Every outcome of a statement, spelled out.\<close>

lemma db_exec_cases:
  assumes "db_exec w q s = (res, s')"
  obtains
    (fault) "storage_fault w (length (trace s)) q" "res = Inl StorageFault"
      "s' = emit (Sql q False) s"
  | (error) e where "\<not> storage_fault w (length (trace s)) q"
      "sql q (clock w (length (trace s))) (store s) = Inl e" "res = Inl e"
      "s' = emit (Sql q False) s"
  | (ok) d rs where "\<not> storage_fault w (length (trace s)) q"
      "sql q (clock w (length (trace s))) (store s) = Inr (d, rs)" "res = Inr rs"
      "s' = emit (Sql q True) (s\<lparr>store := d\<rparr>)"
  using assms by (auto simp: db_exec_def Let_def split: if_splits sum.splits)

lemma create_twice [simp]:
  "create_table_if_not_exists (create_table_if_not_exists t) = create_table_if_not_exists t"
  by (simp add: create_table_if_not_exists_def split: option.splits)

lemma create_is_Some [simp]: "\<exists>rows. create_table_if_not_exists t = Some rows"
  by (simp add: create_table_if_not_exists_def split: option.splits)

lemma create_Some [simp]: "create_table_if_not_exists (Some rows) = Some rows"
  by (simp add: create_table_if_not_exists_def)

lemma delete_older_Some [simp]:
  "delete_older (Some rows) cutoff = Inr (Some (filter (\<lambda>r. cutoff \<le> snd r) rows))"
  by (simp add: delete_older_def not_less)

lemma delete_older_None [simp]: "delete_older None cutoff = Inl NoSuchTable"
  by (simp add: delete_older_def)

lemmas run_defs =
  runApp_def bootstrap_def cleanup_def process_channel_def process_item_def post_item_def
  db_exec_def and_then_def fatal_def logmsg_def emit_def create_table_if_not_exists_def
  select_by_id_def insert_row_def delete_older_def message_def Let_def

lemmas ex_defs = world_ex_def cli_ex_def fresh_def item_v1_def item_pl_def state_ex_def

section \<open>Schema bootstrap\<close>

lemma bootstrap_no_fault:
  assumes "\<forall>n q. \<not> storage_fault w n q"
  shows "bootstrap w s =
    (None,
     \<lparr>store = (store s)\<lparr>videos_posted := create_table_if_not_exists (videos_posted (store s)),
         channel_check_times := create_table_if_not_exists (channel_check_times (store s))\<rparr>,
      trace = trace s @
        [Log Debug ''creating videos_posted table if required'', Sql CreateVideosPosted True,
         Log Debug ''creating channel_check_times table if required'',
         Sql CreateChannelCheckTimes True]\<rparr>)"
  using assms by (simp add: bootstrap_def db_exec_def Let_def emit_def logmsg_def)

text \<open>
  C9. Schema bootstrap is idempotent. Whatever the store holds, creating the two tables
  succeeds when the storage itself does not fail, and leaves both tables in existence;
  creating them again, in a later invocation that starts from that store, succeeds too
  and leaves the store exactly as the first run left it.
\<close>

theorem bootstrap_idempotent:
  assumes "\<forall>n q. \<not> storage_fault w n q" and "\<forall>n q. \<not> storage_fault w' n q"
    and "bootstrap w s = (r, s1)" and "store t = store s1" and "bootstrap w' t = (r', s2)"
  shows "r = None \<and> r' = None \<and>
         (\<exists>vs cs. videos_posted (store s1) = Some vs \<and> channel_check_times (store s1) = Some cs) \<and>
         store s2 = store s1"
  using assms(3,4,5) unfolding bootstrap_no_fault [OF assms(1)] bootstrap_no_fault [OF assms(2)]
  by auto

theorem bootstrap_idempotent_witness:
  "fst (bootstrap (world_ex 0) \<lparr>store = fresh, trace = []\<rparr>) = None \<and>
   fst (bootstrap (world_ex 900) (snd (bootstrap (world_ex 0) \<lparr>store = fresh, trace = []\<rparr>))) = None \<and>
   store (snd (bootstrap (world_ex 900) (snd (bootstrap (world_ex 0) \<lparr>store = fresh, trace = []\<rparr>))))
     = \<lparr>videos_posted = Some [], channel_check_times = Some []\<rparr>"
proof -
  let ?s = "\<lparr>store = fresh, trace = []\<rparr>"
  have f: "\<forall>n q. \<not> storage_fault (world_ex 0) n q" "\<forall>n q. \<not> storage_fault (world_ex 900) n q"
    by (simp_all add: world_ex_def)
  have s1: "store (snd (bootstrap (world_ex 0) ?s)) =
              \<lparr>videos_posted = Some [], channel_check_times = Some []\<rparr>"
    by (simp add: bootstrap_no_fault [OF f(1)] fresh_def create_table_if_not_exists_def)
  from bootstrap_idempotent [OF f, of ?s "fst (bootstrap (world_ex 0) ?s)"
      "snd (bootstrap (world_ex 0) ?s)" "snd (bootstrap (world_ex 0) ?s)"
      "fst (bootstrap (world_ex 900) (snd (bootstrap (world_ex 0) ?s)))"
      "snd (bootstrap (world_ex 900) (snd (bootstrap (world_ex 0) ?s)))"]
  show ?thesis using s1 by simp
qed

section \<open>Retention sweep\<close>

lemma cleanup_None:
  assumes "cleanup w s = (None, s')"
  shows "\<exists>vs cs. videos_posted (store s) = Some vs \<and> channel_check_times (store s) = Some cs \<and>
     store s' = \<lparr>videos_posted =
                   Some (filter (\<lambda>r. clock w (length (trace s) + 1) - 2592000 \<le> snd r) vs),
                 channel_check_times =
                   Some (filter (\<lambda>r. clock w (length (trace s) + 2) - 43200 \<le> snd r) cs)\<rparr>"
proof -
  obtain vs where vs: "videos_posted (store s) = Some vs"
    using assms
    by (cases "videos_posted (store s)")
       (auto simp: cleanup_def db_exec_def Let_def split: if_splits)
  obtain cs where cs: "channel_check_times (store s) = Some cs"
    using assms vs
    by (cases "channel_check_times (store s)")
       (auto simp: cleanup_def db_exec_def Let_def split: if_splits)
  show ?thesis
    using assms vs cs
    by (auto simp: cleanup_def db_exec_def Let_def split: if_splits)
qed

text \<open>
  C7. After a retention sweep that ran to its end, where \<open>t1\<close> and \<open>t2\<close> are the clock's
  readings at the two DELETE statements: every row left in \<open>videos_posted\<close> is at most 30
  days (2592000 s) older than \<open>t1\<close> and every row left in \<open>channel_check_times\<close> at most 12
  hours (43200 s) older than \<open>t2\<close>; the rows left are exactly the rows that were within
  their threshold, in their order; when no row is past its threshold the tables are
  unchanged; and deleting again at the same readings changes nothing.
\<close>

theorem sweep_retention:
  assumes "cleanup w s = (None, s')"
    and "t1 = clock w (length (trace s) + 1)" and "t2 = clock w (length (trace s) + 2)"
  shows "\<exists>vs cs vs' cs'.
     videos_posted (store s) = Some vs \<and> channel_check_times (store s) = Some cs \<and>
     videos_posted (store s') = Some vs' \<and> channel_check_times (store s') = Some cs' \<and>
     (\<forall>r \<in> set vs'. t1 - 2592000 \<le> snd r) \<and> (\<forall>r \<in> set cs'. t2 - 43200 \<le> snd r) \<and>
     vs' = filter (\<lambda>r. t1 - 2592000 \<le> snd r) vs \<and>
     cs' = filter (\<lambda>r. t2 - 43200 \<le> snd r) cs \<and>
     ((\<forall>r \<in> set vs. t1 - 2592000 \<le> snd r) \<longrightarrow> vs' = vs) \<and>
     ((\<forall>r \<in> set cs. t2 - 43200 \<le> snd r) \<longrightarrow> cs' = cs) \<and>
     sql DeleteVideos t1 (store s') = Inr (store s', []) \<and>
     sql DeleteChecks t2 (store s') = Inr (store s', [])"
  using cleanup_None [OF assms(1)] assms(2,3) by auto

theorem sweep_retention_witness:
  "fst (cleanup (world_ex 3000000) sweep_ex) = None \<and>
   videos_posted (store (snd (cleanup (world_ex 3000000) sweep_ex))) = Some [(''v_new'', 2990000)] \<and>
   channel_check_times (store (snd (cleanup (world_ex 3000000) sweep_ex))) =
     Some [(''UCPiPmwDammRsj7ZIzKyc74A'', 2999000)] \<and>
   sql DeleteVideos 3000001 (store (snd (cleanup (world_ex 3000000) sweep_ex))) =
     Inr (store (snd (cleanup (world_ex 3000000) sweep_ex)), [])"
proof -
  obtain s' where h: "cleanup (world_ex 3000000) sweep_ex = (None, s')"
    by (simp add: cleanup_def db_exec_def world_ex_def sweep_ex_def Let_def)
  have t: "clock (world_ex 3000000) (length (trace sweep_ex) + 1) = 3000001"
          "clock (world_ex 3000000) (length (trace sweep_ex) + 2) = 3000002"
    by (simp_all add: world_ex_def sweep_ex_def)
  from sweep_retention [OF h t [symmetric]] show ?thesis
    using h by (auto simp: sweep_ex_def)
qed

section \<open>The events of the search results\<close>

lemma post_item_events:
  assumes "post_item w c item s = (r, s')" and "Kind item = ''youtube#video''"
  shows "\<exists>tr. trace s' = trace s @ tr \<and> (\<forall>e \<in> set tr. item_event w c item e)"
  using assms
  by (auto simp: post_item_def Let_def item_event_def
           split: if_splits http_result.splits sum.splits prod.splits elim!: db_exec_cases)

lemma process_item_events:
  assumes "process_item w c item s = (r, s')"
  shows "\<exists>tr. trace s' = trace s @ tr \<and> (\<forall>e \<in> set tr. item_event w c item e)"
proof (cases "Kind item = ''youtube#video''")
  case False
  with assms show ?thesis
    by (auto simp: process_item_def item_event_def)
next
  case True
  obtain res s1 where q: "db_exec w (SelectVideo (VideoId item)) s = (res, s1)"
    by (cases "db_exec w (SelectVideo (VideoId item)) s")
  then have t1: "\<exists>b. trace s1 = trace s @ [Sql (SelectVideo (VideoId item)) b]"
    by (auto elim!: db_exec_cases)
  show ?thesis
  proof (cases res)
    case (Inl e)
    with assms True q t1 show ?thesis
      by (auto simp: process_item_def item_event_def)
  next
    case (Inr rs)
    show ?thesis
    proof (cases "rs = []")
      case False
      with assms True q t1 Inr show ?thesis
        by (auto simp: process_item_def item_event_def split: if_splits)
    next
      case rs: True
      obtain r2 s2 where p: "post_item w c item s1 = (r2, s2)"
        by (cases "post_item w c item s1")
      from post_item_events [OF p True] obtain tr2 where
        tr2: "trace s2 = trace s1 @ tr2" "\<forall>e \<in> set tr2. item_event w c item e"
        by blast
      with assms True q t1 Inr rs p show ?thesis
        by (cases r2) (auto simp: process_item_def item_event_def split: if_splits)
    qed
  qed
qed

lemma process_items_events:
  assumes "process_items w c items s = (r, s')"
  shows "\<exists>tr. trace s' = trace s @ tr \<and>
           (\<forall>e \<in> set tr. \<exists>item \<in> set items. item_event w c item e)"
  using assms
proof (induction items arbitrary: s)
  case Nil
  then show ?case by simp
next
  case (Cons item items)
  obtain r1 s1 where p: "process_item w c item s = (r1, s1)"
    by (cases "process_item w c item s")
  from process_item_events [OF p] obtain tr1 where
    tr1: "trace s1 = trace s @ tr1" "\<forall>e \<in> set tr1. item_event w c item e"
    by blast
  show ?case
  proof (cases r1)
    case (Some a)
    with Cons.prems p tr1 show ?thesis by auto
  next
    case None
    with Cons.prems p have "process_items w c items s1 = (r, s')" by simp
    from Cons.IH [OF this] obtain tr2 where
      "trace s' = trace s1 @ tr2" "\<forall>e \<in> set tr2. \<exists>item \<in> set items. item_event w c item e"
      by blast
    with tr1 show ?thesis by auto
  qed
qed

section \<open>The channel loop, step by step\<close>

lemma loop_steps_trans:
  "loop_steps w s1 s2 \<Longrightarrow> loop_steps w s s1 \<Longrightarrow> loop_steps w s s2"
  by (induction rule: loop_steps.induct) (auto intro: loop_steps.intros)

lemma loop_steps_log: "loop_steps w s s1 \<Longrightarrow> loop_steps w s (logmsg l m s1)"
  by (simp add: logmsg_def loop_steps.emitted)

lemma post_item_steps:
  assumes "post_item w c item s = (r, s')"
  shows "loop_steps w s s'"
proof -
  let ?s1 = "logmsg Debug ''posting item'' s"
  let ?data = "message (UnescapeString w) item"
  let ?s2 = "emit (Post (webhook c) ?data) ?s1"
  have 1: "loop_steps w s ?s1" by (simp add: loop_steps_log same)
  then have 2: "loop_steps w s ?s2" by (simp add: loop_steps.emitted)
  show ?thesis
  proof (cases "new_request_fails w (webhook c)")
    case True
    with assms 1 show ?thesis
      by (auto simp: post_item_def Let_def intro: loop_steps_log)
  next
    case nf: False
    show ?thesis
    proof (cases "webhook_do w (length (trace ?s1)) (webhook c) ?data")
      case TransportError
      with assms nf 2 show ?thesis
        by (auto simp: post_item_def Let_def intro: loop_steps_log)
    next
      case (Status code)
      let ?s3 = "if code \<noteq> 204 then logmsg Error ''unexpected http response code'' ?s2 else ?s2"
      have 3: "loop_steps w s ?s3" using 2 by (simp add: loop_steps_log)
      obtain res s4 where e: "db_exec w (InsertVideo (VideoId item)) ?s3 = (res, s4)"
        by (cases "db_exec w (InsertVideo (VideoId item)) ?s3")
      have 4: "loop_steps w s s4"
        by (rule loop_steps.executed [OF 3 _ e]) simp
      from assms nf Status e have "s' = s4 \<or> s' = logmsg Fatal ''error inserting video into db'' s4"
        by (auto simp: post_item_def Let_def split: sum.splits)
      with 4 show ?thesis by (auto intro: loop_steps_log)
    qed
  qed
qed

lemma process_item_steps:
  assumes "process_item w c item s = (r, s')"
  shows "loop_steps w s s'"
proof (cases "Kind item = ''youtube#video''")
  case False
  with assms show ?thesis
    by (auto simp: process_item_def intro!: loop_steps.emitted loop_steps_log same)
next
  case True
  obtain res s1 where q: "db_exec w (SelectVideo (VideoId item)) s = (res, s1)"
    by (cases "db_exec w (SelectVideo (VideoId item)) s")
  have 1: "loop_steps w s s1"
    by (rule loop_steps.executed [OF same _ q]) simp
  show ?thesis
  proof (cases res)
    case (Inl e)
    with assms True q 1 show ?thesis
      by (auto simp: process_item_def intro: loop_steps_log)
  next
    case (Inr rs)
    show ?thesis
    proof (cases "rs = []")
      case False
      with assms True q 1 Inr show ?thesis
        by (auto simp: process_item_def split: if_splits
                 intro!: loop_steps.emitted loop_steps_log)
    next
      case rs: True
      obtain r2 s2 where p: "post_item w c item s1 = (r2, s2)"
        by (cases "post_item w c item s1")
      have 2: "loop_steps w s s2"
        using loop_steps_trans [OF post_item_steps [OF p] 1] .
      with assms True q Inr rs p show ?thesis
        by (cases r2)
           (auto simp: process_item_def split: if_splits
                 intro!: loop_steps.emitted loop_steps_log)
    qed
  qed
qed

lemma process_items_steps:
  "process_items w c items s = (r, s') \<Longrightarrow> loop_steps w s s'"
proof (induction items arbitrary: s)
  case Nil
  then show ?case by (simp add: same)
next
  case (Cons item items)
  obtain r1 s1 where p: "process_item w c item s = (r1, s1)"
    by (cases "process_item w c item s")
  note 1 = process_item_steps [OF p]
  show ?case
  proof (cases r1)
    case (Some a)
    with Cons.prems p 1 show ?thesis by auto
  next
    case None
    with Cons.prems p have "process_items w c items s1 = (r, s')" by simp
    from loop_steps_trans [OF Cons.IH [OF this] 1] show ?thesis .
  qed
qed

text \<open>The four ways through one channel.\<close>

lemma process_channel_cases:
  assumes "process_channel w c ch s = (r, s')"
  obtains
    (query_failed) e s1 where
      "db_exec w (SelectCheck (snd ch)) s = (Inl e, s1)"
      "s1 = emit (Sql (SelectCheck (snd ch)) False) s"
      "r = Some Exit1" "s' = logmsg Fatal ''error querying db'' s1"
  | (skipped) rs s1 where
      "db_exec w (SelectCheck (snd ch)) s = (Inr rs, s1)" "rs \<noteq> []"
      "s1 = emit (Sql (SelectCheck (snd ch)) True) s"
      "r = None" "s' = logmsg Debug ''channel checked less than 12 hours ago, skipping'' s1"
  | (insert_failed) e s1 s2 where
      "db_exec w (SelectCheck (snd ch)) s = (Inr [], s1)"
      "s1 = emit (Sql (SelectCheck (snd ch)) True) s"
      "db_exec w (InsertCheck (snd ch)) s1 = (Inl e, s2)"
      "s2 = emit (Sql (InsertCheck (snd ch)) False) s1"
      "r = Some Exit1" "s' = logmsg Fatal ''error inserting video into db'' s2"
  | (scanned) rs s1 s2 s4 where
      "db_exec w (SelectCheck (snd ch)) s = (Inr [], s1)"
      "s1 = emit (Sql (SelectCheck (snd ch)) True) s"
      "db_exec w (InsertCheck (snd ch)) s1 = (Inr rs, s2)"
      "trace s2 = trace s1 @ [Sql (InsertCheck (snd ch)) True]"
      "s4 = emit (SearchCall (snd ch) (clock w (length (trace s)) - 172800))
              (logmsg Info ''checking for new videos'' s2)"
      "case search_do w (Suc (length (trace s2))) (snd ch) (clock w (length (trace s)) - 172800) of
         None \<Rightarrow> r = Some Panic \<and> s' = s4
       | Some items \<Rightarrow> process_items w c items s4 = (r, s')"
proof -
  obtain res s1 where q: "db_exec w (SelectCheck (snd ch)) s = (res, s1)"
    by (cases "db_exec w (SelectCheck (snd ch)) s")
  show thesis
  proof (cases res)
    case (Inl e)
    with q have "s1 = emit (Sql (SelectCheck (snd ch)) False) s"
      by (auto elim!: db_exec_cases)
    with assms q Inl show thesis
      by (intro query_failed [of e s1]) (auto simp: process_channel_def Let_def)
  next
    case (Inr rs)
    with q have s1: "s1 = emit (Sql (SelectCheck (snd ch)) True) s"
      by (auto elim!: db_exec_cases simp: select_by_id_def split: option.splits)
    show thesis
    proof (cases "rs = []")
      case False
      with assms q Inr s1 show thesis
        by (intro skipped [of rs s1]) (auto simp: process_channel_def Let_def)
    next
      case True
      obtain res2 s2 where i: "db_exec w (InsertCheck (snd ch)) s1 = (res2, s2)"
        by (cases "db_exec w (InsertCheck (snd ch)) s1")
      show thesis
      proof (cases res2)
        case (Inl e)
        with i have "s2 = emit (Sql (InsertCheck (snd ch)) False) s1"
          by (auto elim!: db_exec_cases)
        with assms q Inr True s1 i Inl show thesis
          by (intro insert_failed [of s1 e s2]) (auto simp: process_channel_def Let_def)
      next
        case r2: (Inr rs2)
        with i have t2: "trace s2 = trace s1 @ [Sql (InsertCheck (snd ch)) True]"
          by (auto elim!: db_exec_cases)
        from assms q Inr True s1 i r2 t2 show thesis
          by (intro scanned [of s1 rs2 s2])
             (auto simp: process_channel_def Let_def split: option.splits)
      qed
    qed
  qed
qed

lemma process_channel_steps:
  assumes "process_channel w c ch s = (r, s')"
  shows "loop_steps w s s'"
  using assms
proof (cases rule: process_channel_cases)
  case (query_failed e s1)
  have "loop_steps w s s1"
    by (rule loop_steps.executed [OF same _ query_failed(1)]) simp
  with query_failed show ?thesis by (simp add: loop_steps_log)
next
  case (skipped rs s1)
  have "loop_steps w s s1"
    by (rule loop_steps.executed [OF same _ skipped(1)]) simp
  with skipped show ?thesis by (simp add: loop_steps_log)
next
  case (insert_failed e s1 s2)
  have "loop_steps w s s1"
    by (rule loop_steps.executed [OF same _ insert_failed(1)]) simp
  then have "loop_steps w s s2"
    by (rule loop_steps.executed [OF _ _ insert_failed(3)]) simp
  with insert_failed show ?thesis by (simp add: loop_steps_log)
next
  case (scanned rs s1 s2 s4)
  have "loop_steps w s s1"
    by (rule loop_steps.executed [OF same _ scanned(1)]) simp
  then have "loop_steps w s s2"
    by (rule loop_steps.executed [OF _ _ scanned(3)]) simp
  then have 4: "loop_steps w s s4"
    unfolding scanned(5) by (intro loop_steps.emitted loop_steps_log) simp_all
  show ?thesis
  proof (cases "search_do w (Suc (length (trace s2))) (snd ch) (clock w (length (trace s)) - 172800)")
    case None
    with scanned(6) 4 show ?thesis by simp
  next
    case (Some items)
    with scanned(6) have "process_items w c items s4 = (r, s')" by simp
    from loop_steps_trans [OF process_items_steps [OF this] 4] show ?thesis .
  qed
qed

lemma process_channels_steps:
  "process_channels w c order s = (r, s') \<Longrightarrow> loop_steps w s s'"
proof (induction order arbitrary: s)
  case Nil
  then show ?case by (simp add: same)
next
  case (Cons ch order)
  obtain r1 s1 where p: "process_channel w c ch s = (r1, s1)"
    by (cases "process_channel w c ch s")
  note 1 = process_channel_steps [OF p]
  show ?case
  proof (cases r1)
    case (Some a)
    with Cons.prems p 1 show ?thesis by auto
  next
    case None
    with Cons.prems p have "process_channels w c order s1 = (r, s')" by simp
    from loop_steps_trans [OF Cons.IH [OF this] 1] show ?thesis .
  qed
qed

subsection \<open>Invariants of the channel loop\<close>

lemma sql_keys_distinct:
  assumes "sql q now d = Inr (d', rs)"
  shows "(keys_distinct (videos_posted d) \<longrightarrow> keys_distinct (videos_posted d')) \<and>
         (keys_distinct (channel_check_times d) \<longrightarrow> keys_distinct (channel_check_times d'))"
  using assms
  by (cases q)
     (auto simp: keys_distinct_def create_table_if_not_exists_def select_by_id_def
           insert_row_def delete_older_def distinct_map_filter
           split: option.splits sum.splits if_splits)

lemma db_exec_keys_distinct:
  assumes "db_exec w q s = (res, s')"
  shows "(keys_distinct (videos_posted (store s)) \<longrightarrow> keys_distinct (videos_posted (store s'))) \<and>
         (keys_distinct (channel_check_times (store s)) \<longrightarrow>
            keys_distinct (channel_check_times (store s')))"
  using assms by (cases rule: db_exec_cases) (auto dest: sql_keys_distinct)

lemma sql_loop_rows:
  assumes "sql q now d = Inr (d', rs)" and "loop_stmt q"
  shows "rows_of (videos_posted d) \<subseteq> rows_of (videos_posted d') \<and>
         rows_of (channel_check_times d) \<subseteq> rows_of (channel_check_times d')"
  using assms
  by (cases q)
     (auto simp: rows_of_def select_by_id_def insert_row_def
           split: option.splits sum.splits if_splits)

lemma loop_steps_rows:
  assumes "loop_steps w s s'"
  shows "rows_of (videos_posted (store s)) \<subseteq> rows_of (videos_posted (store s')) \<and>
         rows_of (channel_check_times (store s)) \<subseteq> rows_of (channel_check_times (store s'))"
  using assms
proof (induction rule: loop_steps.induct)
  case (executed s s1 q res s2)
  from executed(3) have
    "rows_of (videos_posted (store s1)) \<subseteq> rows_of (videos_posted (store s2)) \<and>
     rows_of (channel_check_times (store s1)) \<subseteq> rows_of (channel_check_times (store s2))"
    using executed(2) by (cases rule: db_exec_cases) (auto dest: sql_loop_rows)
  with executed.IH show ?case by blast
qed auto

section \<open>Search results that are not videos\<close>

lemma process_item_not_video:
  assumes "Kind item \<noteq> ''youtube#video''"
  shows "process_item w c item s =
           (None, s\<lparr>trace := trace s @ [Log Debug ''skipping as item is not video'', Sleep 10]\<rparr>)"
  using assms by (simp add: process_item_def logmsg_def emit_def)

lemma process_items_no_video:
  assumes "\<forall>item \<in> set items. Kind item \<noteq> ''youtube#video''"
  shows "fst (process_items w c items s) = None \<and> store (snd (process_items w c items s)) = store s"
  using assms
  by (induction items arbitrary: s) (simp_all add: process_item_not_video)

text \<open>
  C8. Of a list of search results, only the entries whose kind is \<open>youtube#video\<close> lead
  to a ledger lookup, a ledger insert or a webhook post: every SQL statement that handling
  the list records is the lookup or the insert of the identifier of a video entry of the
  list, and every post carries the message of a video entry of the list. An entry of any
  other kind records one log line and the pause, and nothing else; a list without video
  entries leaves the store as it was.
\<close>

theorem non_video_items_skipped:
  assumes "process_items w c items s = (r, s')"
  shows "(\<exists>tr. trace s' = trace s @ tr \<and>
            (\<forall>e \<in> set tr.
               (\<forall>q b. e = Sql q b \<longrightarrow>
                  (\<exists>item \<in> set items. Kind item = ''youtube#video'' \<and>
                     (q = SelectVideo (VideoId item) \<or> q = InsertVideo (VideoId item)))) \<and>
               (\<forall>u body. e = Post u body \<longrightarrow>
                  (\<exists>item \<in> set items. Kind item = ''youtube#video'' \<and>
                     body = message (UnescapeString w) item)))) \<and>
         (\<forall>item. Kind item \<noteq> ''youtube#video'' \<longrightarrow>
            process_item w c item s =
              (None, s\<lparr>trace := trace s @
                         [Log Debug ''skipping as item is not video'', Sleep 10]\<rparr>)) \<and>
         ((\<forall>item \<in> set items. Kind item \<noteq> ''youtube#video'') \<longrightarrow>
            r = None \<and> store s' = store s)"
proof -
  from process_items_events [OF assms] obtain tr where
    tr: "trace s' = trace s @ tr" "\<forall>e \<in> set tr. \<exists>item \<in> set items. item_event w c item e"
    by blast
  have "\<forall>e \<in> set tr.
          (\<forall>q b. e = Sql q b \<longrightarrow>
             (\<exists>item \<in> set items. Kind item = ''youtube#video'' \<and>
                (q = SelectVideo (VideoId item) \<or> q = InsertVideo (VideoId item)))) \<and>
          (\<forall>u body. e = Post u body \<longrightarrow>
             (\<exists>item \<in> set items. Kind item = ''youtube#video'' \<and>
                body = message (UnescapeString w) item))"
  proof
    fix e assume "e \<in> set tr"
    with tr(2) obtain item where "item \<in> set items" "item_event w c item e" by blast
    then show "(\<forall>q b. e = Sql q b \<longrightarrow>
             (\<exists>item \<in> set items. Kind item = ''youtube#video'' \<and>
                (q = SelectVideo (VideoId item) \<or> q = InsertVideo (VideoId item)))) \<and>
          (\<forall>u body. e = Post u body \<longrightarrow>
             (\<exists>item \<in> set items. Kind item = ''youtube#video'' \<and>
                body = message (UnescapeString w) item))"
      by (cases e) (auto simp: item_event_def)
  qed
  with tr(1) have 1: "\<exists>tr. trace s' = trace s @ tr \<and>
            (\<forall>e \<in> set tr.
               (\<forall>q b. e = Sql q b \<longrightarrow>
                  (\<exists>item \<in> set items. Kind item = ''youtube#video'' \<and>
                     (q = SelectVideo (VideoId item) \<or> q = InsertVideo (VideoId item)))) \<and>
               (\<forall>u body. e = Post u body \<longrightarrow>
                  (\<exists>item \<in> set items. Kind item = ''youtube#video'' \<and>
                     body = message (UnescapeString w) item)))"
    by blast
  have 3: "(\<forall>item \<in> set items. Kind item \<noteq> ''youtube#video'') \<longrightarrow> r = None \<and> store s' = store s"
    using process_items_no_video [of items w c s] assms by auto
  from 1 3 show ?thesis by (simp add: process_item_not_video)
qed

theorem non_video_items_skipped_witness:
  "process_items (world_ex 1000) cli_ex [item_v1, item_pl] state_ex =
     (None,
      \<lparr>store = \<lparr>videos_posted = Some [(''v1'', 1003)], channel_check_times = Some []\<rparr>,
       trace = [Sql (SelectVideo ''v1'') True, Log Debug ''posting item'',
                Post (webhook cli_ex) (message unescape_basic item_v1),
                Sql (InsertVideo ''v1'') True, Sleep 10,
                Log Debug ''skipping as item is not video'', Sleep 10]\<rparr>) \<and>
   Kind item_pl \<noteq> ''youtube#video'' \<and>
   process_item (world_ex 1000) cli_ex item_pl state_ex =
     (None, state_ex\<lparr>trace := trace state_ex @
                         [Log Debug ''skipping as item is not video'', Sleep 10]\<rparr>)"
proof -
  have h: "process_items (world_ex 1000) cli_ex [item_v1, item_pl] state_ex =
     (None,
      \<lparr>store = \<lparr>videos_posted = Some [(''v1'', 1003)], channel_check_times = Some []\<rparr>,
       trace = [Sql (SelectVideo ''v1'') True, Log Debug ''posting item'',
                Post (webhook cli_ex) (message unescape_basic item_v1),
                Sql (InsertVideo ''v1'') True, Sleep 10,
                Log Debug ''skipping as item is not video'', Sleep 10]\<rparr>)"
    by (simp add: run_defs ex_defs)
  have k: "Kind item_pl \<noteq> ''youtube#video''" by (simp add: item_pl_def)
  from non_video_items_skipped [OF h] k show ?thesis using h by blast
qed

section \<open>Check mark before search\<close>

lemma marked_Nil [simp]: "marked []"
  by (simp add: marked_def)

lemma marked_snoc:
  "marked (tr @ [e]) \<longleftrightarrow>
     marked tr \<and> (\<forall>ch t. e = SearchCall ch t \<longrightarrow> Sql (InsertCheck ch) True \<in> set tr)"
proof
  assume m: "marked (tr @ [e])"
  have "marked tr"
    unfolding marked_def
  proof (intro allI impI)
    fix pre ch t post
    assume "tr = pre @ SearchCall ch t # post"
    then have "tr @ [e] = pre @ SearchCall ch t # (post @ [e])" by simp
    with m show "Sql (InsertCheck ch) True \<in> set pre"
      unfolding marked_def by blast
  qed
  moreover have "\<forall>ch t. e = SearchCall ch t \<longrightarrow> Sql (InsertCheck ch) True \<in> set tr"
  proof (intro allI impI)
    fix ch t assume "e = SearchCall ch t"
    then have "tr @ [e] = tr @ SearchCall ch t # []" by simp
    with m show "Sql (InsertCheck ch) True \<in> set tr"
      unfolding marked_def by blast
  qed
  ultimately show "marked tr \<and> (\<forall>ch t. e = SearchCall ch t \<longrightarrow> Sql (InsertCheck ch) True \<in> set tr)"
    by blast
next
  assume a: "marked tr \<and> (\<forall>ch t. e = SearchCall ch t \<longrightarrow> Sql (InsertCheck ch) True \<in> set tr)"
  show "marked (tr @ [e])"
    unfolding marked_def
  proof (intro allI impI)
    fix pre ch t post
    assume eq: "tr @ [e] = pre @ SearchCall ch t # post"
    show "Sql (InsertCheck ch) True \<in> set pre"
    proof (cases post rule: rev_cases)
      case Nil
      with eq have "pre = tr" "e = SearchCall ch t" by auto
      with a show ?thesis by blast
    next
      case (snoc post' x)
      with eq have "tr = pre @ SearchCall ch t # post'" by auto
      with a show ?thesis unfolding marked_def by blast
    qed
  qed
qed

lemma marked_append:
  "marked tr \<Longrightarrow> no_search tr' \<Longrightarrow> marked (tr @ tr')"
proof (induction tr' rule: rev_induct)
  case Nil
  then show ?case by simp
next
  case (snoc e tr')
  then have "marked (tr @ tr')" by (simp add: no_search_def)
  moreover from snoc.prems(2) have "\<forall>ch t. e \<noteq> SearchCall ch t" by (simp add: no_search_def)
  ultimately show ?case
    using marked_snoc [of "tr @ tr'" e] by simp
qed

lemma no_search_Nil [simp]: "no_search []"
  by (simp add: no_search_def)

lemma no_search_Cons [simp]:
  "no_search (e # tr) \<longleftrightarrow> (\<forall>ch t. e \<noteq> SearchCall ch t) \<and> no_search tr"
  by (auto simp: no_search_def)

lemma item_events_no_search:
  "\<forall>e \<in> set tr. \<exists>item \<in> set items. item_event w c item e \<Longrightarrow> no_search tr"
  by (auto simp: no_search_def item_event_def)

lemma process_channel_marked:
  assumes "process_channel w c ch s = (r, s')" and "marked (trace s)"
  shows "marked (trace s')"
  using assms(1)
proof (cases rule: process_channel_cases)
  case (query_failed e s1)
  then have "trace s' = trace s @ [Sql (SelectCheck (snd ch)) False, Log Fatal ''error querying db'']"
    by simp
  with assms(2) show ?thesis by (simp add: marked_append)
next
  case (skipped rs s1)
  then have "trace s' = trace s @ [Sql (SelectCheck (snd ch)) True,
      Log Debug ''channel checked less than 12 hours ago, skipping'']"
    by simp
  with assms(2) show ?thesis by (simp add: marked_append)
next
  case (insert_failed e s1 s2)
  then have "trace s' = trace s @ [Sql (SelectCheck (snd ch)) True,
      Sql (InsertCheck (snd ch)) False, Log Fatal ''error inserting video into db'']"
    by simp
  with assms(2) show ?thesis by (simp add: marked_append)
next
  case (scanned rs s1 s2 s4)
  let ?pre = "trace s @ [Sql (SelectCheck (snd ch)) True, Sql (InsertCheck (snd ch)) True,
      Log Info ''checking for new videos'']"
  have "marked ?pre" using assms(2) by (simp add: marked_append)
  moreover have "Sql (InsertCheck (snd ch)) True \<in> set ?pre" by simp
  ultimately have "marked (?pre @ [SearchCall (snd ch) (clock w (length (trace s)) - 172800)])"
    by (subst marked_snoc) blast
  moreover have "trace s4 = ?pre @ [SearchCall (snd ch) (clock w (length (trace s)) - 172800)]"
    using scanned(2,4,5) by simp
  ultimately have 4: "marked (trace s4)" by simp
  show ?thesis
  proof (cases "search_do w (Suc (length (trace s2))) (snd ch) (clock w (length (trace s)) - 172800)")
    case None
    with scanned(6) 4 show ?thesis by simp
  next
    case (Some items)
    with scanned(6) have "process_items w c items s4 = (r, s')" by simp
    from process_items_events [OF this] obtain tr where
      "trace s' = trace s4 @ tr" "\<forall>e \<in> set tr. \<exists>item \<in> set items. item_event w c item e"
      by blast
    with 4 show ?thesis by (simp add: marked_append item_events_no_search)
  qed
qed

lemma process_channels_marked:
  "process_channels w c order s = (r, s') \<Longrightarrow> marked (trace s) \<Longrightarrow> marked (trace s')"
proof (induction order arbitrary: s)
  case Nil
  then show ?case by simp
next
  case (Cons ch order)
  obtain r1 s1 where p: "process_channel w c ch s = (r1, s1)"
    by (cases "process_channel w c ch s")
  note 1 = process_channel_marked [OF p Cons.prems(2)]
  show ?case
  proof (cases r1)
    case (Some a)
    with Cons.prems p 1 show ?thesis by auto
  next
    case None
    with Cons.prems p have "process_channels w c order s1 = (r, s')" by simp
    from Cons.IH [OF this 1] show ?thesis .
  qed
qed

text \<open>The ways through \<open>runApp\<close>.\<close>

lemma runApp_cases:
  assumes "runApp w c order d = (out, s)"
  obtains
    (open_failed) "out = ReturnErr" "s = start d"
  | (bootstrap_failed) "out = Exit1" "bootstrap w (start d) = (Some Exit1, s)"
  | (service_failed) s1 where "out = Exit1" "bootstrap w (start d) = (None, s1)"
      "s = logmsg Fatal ''Error creating new YouTube client'' s1"
  | (loop_ended) a s1 where "out = a" "bootstrap w (start d) = (None, s1)"
      "process_channels w c order s1 = (Some a, s)"
  | (swept) r s1 s2 where "bootstrap w (start d) = (None, s1)"
      "process_channels w c order s1 = (None, s2)" "cleanup w s2 = (r, s)"
      "out = (case r of None \<Rightarrow> ReturnNil | Some a \<Rightarrow> a)"
proof -
  have s0: "logmsg Debug ''opening sqlite database''
              (logmsg Info ''started'' \<lparr>store = d, trace = []\<rparr>) = start d"
    by (simp add: start_def logmsg_def emit_def)
  obtain rb s1 where b: "bootstrap w (start d) = (rb, s1)"
    by (cases "bootstrap w (start d)")
  have rb: "rb = None \<or> rb = Some Exit1"
    using b by (auto simp: bootstrap_def Let_def split: prod.splits sum.splits)
  obtain rl s2 where l: "process_channels w c order s1 = (rl, s2)"
    by (cases "process_channels w c order s1")
  obtain rc s3 where cl: "cleanup w s2 = (rc, s3)"
    by (cases "cleanup w s2")
  show thesis
  proof (cases "sql_open_fails w (dbfile c)")
    case True
    with assms s0 show thesis by (intro open_failed) (auto simp: runApp_def Let_def)
  next
    case no: False
    show thesis
    proof (cases rb)
      case (Some a)
      with rb assms s0 no b show thesis
        by (intro bootstrap_failed) (auto simp: runApp_def Let_def)
    next
      case None
      show thesis
      proof (cases "new_service_fails w (apikey c)")
        case True
        with assms s0 no b None show thesis
          by (intro service_failed [of s1]) (auto simp: runApp_def Let_def)
      next
        case svc: False
        show thesis
        proof (cases rl)
          case (Some a)
          with assms s0 no b None svc l show thesis
            by (intro loop_ended [of a s1]) (auto simp: runApp_def Let_def)
        next
          case nl: None
          with assms s0 no b None svc l cl show thesis
            by (intro swept [of s1 s2 rc]) (auto simp: runApp_def Let_def split: option.splits)
        qed
      qed
    qed
  qed
qed

lemma bootstrap_trace:
  assumes "bootstrap w s = (r, s')"
  shows "\<exists>tr. trace s' = trace s @ tr \<and>
           (\<forall>e \<in> set tr. (\<exists>l m. e = Log l m) \<or>
              (\<exists>b. e = Sql CreateVideosPosted b \<or> e = Sql CreateChannelCheckTimes b))"
  using assms
  by (auto simp: bootstrap_def Let_def split: prod.splits sum.splits elim!: db_exec_cases)

lemma cleanup_trace:
  assumes "cleanup w s = (r, s')"
  shows "\<exists>tr. trace s' = trace s @ tr \<and> (\<forall>e \<in> set tr. sweep_event e)"
  using assms
  by (auto simp: cleanup_def Let_def split: prod.splits sum.splits elim!: db_exec_cases)

lemma bootstrap_no_search:
  assumes "bootstrap w s = (r, s')"
  shows "\<exists>tr. trace s' = trace s @ tr \<and> no_search tr"
  using bootstrap_trace [OF assms] by (auto simp: no_search_def)

lemma cleanup_no_search:
  assumes "cleanup w s = (r, s')"
  shows "\<exists>tr. trace s' = trace s @ tr \<and> no_search tr"
proof -
  from cleanup_trace [OF assms] obtain tr where
    tr: "trace s' = trace s @ tr" "\<forall>e \<in> set tr. sweep_event e" by blast
  have "no_search tr"
    unfolding no_search_def
  proof (intro ballI allI)
    fix e ch t assume "e \<in> set tr"
    with tr(2) have "sweep_event e" by blast
    then show "e \<noteq> SearchCall ch t" by auto
  qed
  with tr(1) show ?thesis by blast
qed

lemma marked_start: "marked (trace (start d))"
  by (simp add: start_def marked_def Cons_eq_append_conv)

lemma runApp_marked:
  assumes "runApp w c order d = (out, s)"
  shows "marked (trace s)"
  using assms
proof (cases rule: runApp_cases)
  case open_failed
  then show ?thesis by (simp add: marked_start)
next
  case bootstrap_failed
  from bootstrap_no_search [OF bootstrap_failed(2)] show ?thesis
    by (auto simp: marked_append marked_start)
next
  case (service_failed s1)
  from bootstrap_no_search [OF service_failed(2)] have "marked (trace s1)"
    by (auto simp: marked_append marked_start)
  with service_failed(3) show ?thesis by (simp add: marked_snoc)
next
  case (loop_ended a s1)
  from bootstrap_no_search [OF loop_ended(2)] have "marked (trace s1)"
    by (auto simp: marked_append marked_start)
  with loop_ended(3) show ?thesis by (rule process_channels_marked)
next
  case (swept r s1 s2)
  from bootstrap_no_search [OF swept(1)] have "marked (trace s1)"
    by (auto simp: marked_append marked_start)
  with swept(2) have "marked (trace s2)" by (rule process_channels_marked)
  with cleanup_no_search [OF swept(3)] show ?thesis
    by (auto simp: marked_append)
qed

lemma process_channel_search:
  assumes "process_channel w c ch s = (r, s')" and "trace s' = trace s @ tr"
    and "SearchCall k t \<in> set tr"
  shows "k = snd ch \<and>
         (\<exists>tr'. tr = [Sql (SelectCheck k) True, Sql (InsertCheck k) True,
                       Log Info ''checking for new videos'', SearchCall k t] @ tr' \<and>
                 no_search tr') \<and>
         (k, clock w (Suc (length (trace s)))) \<in> rows_of (channel_check_times (store s'))"
  using assms(1)
proof (cases rule: process_channel_cases)
  case (query_failed e s1)
  with assms(2,3) show ?thesis by auto
next
  case (skipped rs s1)
  with assms(2,3) show ?thesis by auto
next
  case (insert_failed e s1 s2)
  with assms(2,3) show ?thesis by auto
next
  case (scanned rs s1 s2 s4)
  let ?t = "clock w (length (trace s)) - 172800"
  have row2: "(snd ch, clock w (Suc (length (trace s)))) \<in> rows_of (channel_check_times (store s2))"
    using scanned(3) scanned(2)
    by (cases rule: db_exec_cases)
       (auto simp: insert_row_def rows_of_def split: option.splits if_splits sum.splits)
  have t4: "trace s4 = trace s @ [Sql (SelectCheck (snd ch)) True, Sql (InsertCheck (snd ch)) True,
      Log Info ''checking for new videos'', SearchCall (snd ch) ?t]"
    using scanned(2,4,5) by simp
  have st4: "store s4 = store s2" using scanned(5) by simp
  have "\<exists>tr'. trace s' = trace s4 @ tr' \<and> no_search tr' \<and> loop_steps w s4 s'"
  proof (cases "search_do w (Suc (length (trace s2))) (snd ch) ?t")
    case None
    with scanned(6) show ?thesis by (auto intro: loop_steps.same)
  next
    case (Some items)
    with scanned(6) have p: "process_items w c items s4 = (r, s')" by simp
    from process_items_events [OF p] process_items_steps [OF p] show ?thesis
      by (auto dest: item_events_no_search)
  qed
  then obtain tr' where tr': "trace s' = trace s4 @ tr'" "no_search tr'" "loop_steps w s4 s'"
    by blast
  from loop_steps_rows [OF tr'(3)] row2 st4
  have row: "(snd ch, clock w (Suc (length (trace s)))) \<in> rows_of (channel_check_times (store s'))"
    by auto
  from tr'(1) t4 assms(2) have tr: "tr = [Sql (SelectCheck (snd ch)) True,
      Sql (InsertCheck (snd ch)) True, Log Info ''checking for new videos'',
      SearchCall (snd ch) ?t] @ tr'"
    by simp
  with assms(3) tr'(2) have "k = snd ch \<and> t = ?t" by (auto simp: no_search_def)
  with tr tr'(2) row show ?thesis by blast
qed

text \<open>
  C2. In every invocation, a search call for a channel comes after a successful insert of
  a check mark for that channel in the same invocation. More precisely, when the handling
  of a channel makes the search call, the events it records start with the lookup that
  found no mark, the successful insert of the mark, one log line and then the search call,
  which is the only one, and the mark's row, stamped with the clock's reading at the
  insert, is in \<open>channel_check_times\<close> when the handling of the channel ends.
\<close>

theorem mark_before_search:
  "(runApp w c order d = (out, s) \<longrightarrow>
      (\<forall>pre ch t post. trace s = pre @ SearchCall ch t # post \<longrightarrow>
         Sql (InsertCheck ch) True \<in> set pre)) \<and>
   (process_channel w c cc s0 = (r, s1) \<longrightarrow>
      (\<forall>tr ch t. trace s1 = trace s0 @ tr \<and> SearchCall ch t \<in> set tr \<longrightarrow>
         ch = snd cc \<and>
         (\<exists>tr'. tr = [Sql (SelectCheck ch) True, Sql (InsertCheck ch) True,
                       Log Info ''checking for new videos'', SearchCall ch t] @ tr' \<and>
                 no_search tr') \<and>
         (ch, clock w (Suc (length (trace s0)))) \<in> rows_of (channel_check_times (store s1))))"
proof (intro conjI impI allI)
  fix pre ch t post
  assume "runApp w c order d = (out, s)" "trace s = pre @ SearchCall ch t # post"
  then show "Sql (InsertCheck ch) True \<in> set pre"
    using runApp_marked unfolding marked_def by blast
next
  fix tr ch t
  assume p: "process_channel w c cc s0 = (r, s1)"
    and t: "trace s1 = trace s0 @ tr \<and> SearchCall ch t \<in> set tr"
  from process_channel_search [OF p, of tr ch t] t
  show "ch = snd cc"
    and "\<exists>tr'. tr = [Sql (SelectCheck ch) True, Sql (InsertCheck ch) True,
                       Log Info ''checking for new videos'', SearchCall ch t] @ tr' \<and>
                 no_search tr'"
    and "(ch, clock w (Suc (length (trace s0)))) \<in> rows_of (channel_check_times (store s1))"
    by blast+
qed

lemma run_ex1:
  "runApp (world_ex 1000) cli_ex order1 fresh =
    (ReturnNil,
     \<lparr>store = \<lparr>videos_posted = Some [(''v1'', 1013)],
                channel_check_times = Some [(''UCwpHKudUkP5tNgmMdexB3ow'', 1007)]\<rparr>,
      trace =
       [Log Info ''started'', Log Debug ''opening sqlite database'',
        Log Debug ''creating videos_posted table if required'',
        Sql CreateVideosPosted True,
        Log Debug ''creating channel_check_times table if required'',
        Sql CreateChannelCheckTimes True,
        Sql (SelectCheck ''UCwpHKudUkP5tNgmMdexB3ow'') True,
        Sql (InsertCheck ''UCwpHKudUkP5tNgmMdexB3ow'') True,
        Log Info ''checking for new videos'',
        SearchCall ''UCwpHKudUkP5tNgmMdexB3ow'' (- 171794),
        Sql (SelectVideo ''v1'') True, Log Debug ''posting item'',
        Post (webhook cli_ex) (message unescape_basic item_v1),
        Sql (InsertVideo ''v1'') True, Sleep 10, Log Debug ''cleaning db'',
        Sql DeleteVideos True, Sql DeleteChecks True, Sql Vacuum True]\<rparr>)"
  by (simp add: run_defs ex_defs order1_def)

theorem mark_before_search_witness:
  "trace (snd (runApp (world_ex 1000) cli_ex order1 fresh)) =
     take 9 (trace (snd (runApp (world_ex 1000) cli_ex order1 fresh))) @
     SearchCall ''UCwpHKudUkP5tNgmMdexB3ow'' (- 171794) #
     drop 10 (trace (snd (runApp (world_ex 1000) cli_ex order1 fresh))) \<and>
   Sql (InsertCheck ''UCwpHKudUkP5tNgmMdexB3ow'') True
     \<in> set (take 9 (trace (snd (runApp (world_ex 1000) cli_ex order1 fresh)))) \<and>
   SearchCall ''UCwpHKudUkP5tNgmMdexB3ow'' (- 171800)
     \<in> set (trace (snd (process_channel (world_ex 1000) cli_ex (hd order1) state_ex))) \<and>
   (''UCwpHKudUkP5tNgmMdexB3ow'', 1001)
     \<in> rows_of (channel_check_times
          (store (snd (process_channel (world_ex 1000) cli_ex (hd order1) state_ex))))"
proof -
  let ?s = "snd (runApp (world_ex 1000) cli_ex order1 fresh)"
  let ?k = "''UCwpHKudUkP5tNgmMdexB3ow''"
  have h: "runApp (world_ex 1000) cli_ex order1 fresh = (ReturnNil, ?s)"
    by (simp add: run_ex1)
  have t: "trace ?s = take 9 (trace ?s) @ SearchCall ?k (- 171794) # drop 10 (trace ?s)"
    by (simp add: run_ex1)
  let ?p = "process_channel (world_ex 1000) cli_ex (hd order1) state_ex"
  have tp: "trace (snd ?p) =
      [Sql (SelectCheck ?k) True, Sql (InsertCheck ?k) True,
       Log Info ''checking for new videos'', SearchCall ?k (- 171800),
       Sql (SelectVideo ''v1'') True, Log Debug ''posting item'',
       Post (webhook cli_ex) (message unescape_basic item_v1),
       Sql (InsertVideo ''v1'') True, Sleep 10]"
    by (simp add: run_defs ex_defs order1_def)
  have hp: "?p = (fst ?p, snd ?p)" by simp
  have c: "trace (snd ?p) = trace state_ex @ trace (snd ?p) \<and>
           SearchCall ?k (- 171800) \<in> set (trace (snd ?p))"
    by (simp add: tp) (simp add: state_ex_def)
  have k: "clock (world_ex 1000) (Suc (length (trace state_ex))) = 1001"
    by (simp add: world_ex_def state_ex_def)
  from mark_before_search [of "world_ex 1000" cli_ex order1 fresh ReturnNil ?s
      "hd order1" state_ex "fst ?p" "snd ?p"] h t hp c k
  show ?thesis by metis
qed

section \<open>Errors of the retention sweep\<close>

lemma post_item_outcome:
  "post_item w c item s = (Some a, s') \<Longrightarrow> a = Exit1"
  by (auto simp: post_item_def Let_def
           split: if_splits http_result.splits prod.splits sum.splits)

lemma process_item_outcome:
  assumes "process_item w c item s = (Some a, s')"
  shows "a = Exit1"
proof -
  obtain r2 s2 where p: "post_item w c item (snd (db_exec w (SelectVideo (VideoId item)) s)) = (r2, s2)"
    by (cases "post_item w c item (snd (db_exec w (SelectVideo (VideoId item)) s))")
  show ?thesis
    using assms p post_item_outcome [of w c item _ a s2]
    by (cases r2)
       (auto simp: process_item_def and_then_def split: if_splits prod.splits sum.splits)
qed

lemma process_items_outcome:
  "process_items w c items s = (Some a, s') \<Longrightarrow> a = Exit1"
proof (induction items arbitrary: s)
  case Nil
  then show ?case by simp
next
  case (Cons item items)
  obtain r1 s1 where p: "process_item w c item s = (r1, s1)"
    by (cases "process_item w c item s")
  with Cons show ?case
    by (cases r1) (auto dest: process_item_outcome)
qed

lemma process_channel_outcome:
  assumes "process_channel w c ch s = (Some a, s')"
  shows "a = Exit1 \<or> a = Panic"
  using assms
proof (cases rule: process_channel_cases)
  case (scanned rs s1 s2 s4)
  then show ?thesis
    by (auto split: option.splits dest: process_items_outcome)
qed auto

lemma process_channels_outcome:
  "process_channels w c order s = (Some a, s') \<Longrightarrow> a = Exit1 \<or> a = Panic"
proof (induction order arbitrary: s)
  case Nil
  then show ?case by simp
next
  case (Cons ch order)
  obtain r1 s1 where p: "process_channel w c ch s = (r1, s1)"
    by (cases "process_channel w c ch s")
  with Cons show ?case
    by (cases r1) (auto dest: process_channel_outcome)
qed

lemma loop_steps_trace:
  assumes "loop_steps w s s'"
  shows "\<exists>tr. trace s' = trace s @ tr \<and> (\<forall>q b. Sql q b \<in> set tr \<longrightarrow> loop_stmt q)"
  using assms
proof (induction rule: loop_steps.induct)
  case (same s)
  then show ?case by simp
next
  case (emitted s s1 e)
  then obtain tr where "trace s1 = trace s @ tr" "\<forall>q b. Sql q b \<in> set tr \<longrightarrow> loop_stmt q"
    by blast
  with emitted(2) have "trace (emit e s1) = trace s @ (tr @ [e]) \<and>
      (\<forall>q b. Sql q b \<in> set (tr @ [e]) \<longrightarrow> loop_stmt q)"
    by (cases e) auto
  then show ?case by blast
next
  case (executed s s1 q res s2)
  then obtain tr where tr: "trace s1 = trace s @ tr" "\<forall>q b. Sql q b \<in> set tr \<longrightarrow> loop_stmt q"
    by blast
  from executed(3) obtain b where "trace s2 = trace s1 @ [Sql q b]"
    by (cases rule: db_exec_cases) auto
  with tr executed(2) have "trace s2 = trace s @ (tr @ [Sql q b]) \<and>
      (\<forall>q' b'. Sql q' b' \<in> set (tr @ [Sql q b]) \<longrightarrow> loop_stmt q')"
    by auto
  then show ?case by blast
qed

text \<open>The four ways through the sweep.\<close>

lemma cleanup_cases:
  assumes "cleanup w s = (r, s')"
  obtains
    (videos_failed) "r = Some Exit1"
      "trace s' = trace s @ [Log Debug ''cleaning db'', Sql DeleteVideos False,
         Log Fatal ''error deleting old videos_posted video records from db'']"
  | (checks_failed) "r = Some Exit1"
      "trace s' = trace s @ [Log Debug ''cleaning db'', Sql DeleteVideos True,
         Sql DeleteChecks False,
         Log Fatal ''error deleting old channel_check_times records from db'']"
  | (vacuum_failed) "r = Some Exit1"
      "trace s' = trace s @ [Log Debug ''cleaning db'', Sql DeleteVideos True,
         Sql DeleteChecks True, Sql Vacuum False, Log Fatal ''error vacuuming db'']"
  | (all_ok) "r = None"
      "trace s' = trace s @ [Log Debug ''cleaning db'', Sql DeleteVideos True,
         Sql DeleteChecks True, Sql Vacuum True]"
  using assms
  by (auto simp: cleanup_def Let_def split: prod.splits sum.splits elim!: db_exec_cases)

lemma before_sweep_trace:
  assumes "bootstrap w (start d) = (rb, s1)" and "loop_steps w s1 s2"
  shows "\<forall>q b. Sql q b \<in> set (trace s2) \<longrightarrow> \<not> sweep_stmt q"
proof -
  from bootstrap_trace [OF assms(1)] obtain tr1 where
    1: "trace s1 = trace (start d) @ tr1"
       "\<forall>e \<in> set tr1. (\<exists>l m. e = Log l m) \<or>
              (\<exists>b. e = Sql CreateVideosPosted b \<or> e = Sql CreateChannelCheckTimes b)"
    by blast
  from loop_steps_trace [OF assms(2)] obtain tr2 where
    2: "trace s2 = trace s1 @ tr2" "\<forall>q b. Sql q b \<in> set tr2 \<longrightarrow> loop_stmt q"
    by blast
  show ?thesis
  proof (intro allI impI)
    fix q b assume "Sql q b \<in> set (trace s2)"
    with 1(1) 2(1) have "Sql q b \<in> set tr1 \<or> Sql q b \<in> set tr2"
      by (auto simp: start_def)
    then show "\<not> sweep_stmt q"
    proof
      assume "Sql q b \<in> set tr1"
      with 1(2) show ?thesis by (auto simp: sweep_stmt_def)
    next
      assume "Sql q b \<in> set tr2"
      with 2(2) have "loop_stmt q" by blast
      then show ?thesis by (cases q) (auto simp: sweep_stmt_def)
    qed
  qed
qed

text \<open>
  C4 (amended). An error in the retention sweep is fatal. When the first DELETE, the second
  DELETE or VACUUM fails, the failure is logged at fatal level right after the failed
  statement, nothing follows it, and the process exits with status 1; \<open>runApp\<close> returns
  nil only when all three statements of the sweep have succeeded.
\<close>

theorem sweep_errors_fatal:
  assumes "runApp w c order d = (out, s)"
  shows "(out = ReturnNil \<longrightarrow>
           (\<exists>pre. trace s = pre @ [Log Debug ''cleaning db'', Sql DeleteVideos True,
                                    Sql DeleteChecks True, Sql Vacuum True])) \<and>
         (\<forall>q. sweep_stmt q \<and> Sql q False \<in> set (trace s) \<longrightarrow>
            out = Exit1 \<and> (\<exists>pre m. trace s = pre @ [Sql q False, Log Fatal m]))"
  using assms
proof (cases rule: runApp_cases)
  case open_failed
  then show ?thesis by (auto simp: start_def)
next
  case bootstrap_failed
  from before_sweep_trace [OF bootstrap_failed(2) loop_steps.same] bootstrap_failed(1)
  show ?thesis by auto
next
  case (service_failed s1)
  from before_sweep_trace [OF service_failed(2) loop_steps.same] service_failed(1,3)
  show ?thesis by auto
next
  case (loop_ended a s1)
  from process_channels_outcome [OF loop_ended(3)] loop_ended(1) have "out \<noteq> ReturnNil" by auto
  with before_sweep_trace [OF loop_ended(2) process_channels_steps [OF loop_ended(3)]]
  show ?thesis by auto
next
  case (swept r s1 s2)
  note pre = before_sweep_trace [OF swept(1) process_channels_steps [OF swept(2)]]
  from swept(3) show ?thesis
  proof (cases rule: cleanup_cases)
    case videos_failed
    with swept(4) pre show ?thesis by (auto simp: sweep_stmt_def)
  next
    case checks_failed
    with swept(4) pre show ?thesis by (auto simp: sweep_stmt_def)
  next
    case vacuum_failed
    with swept(4) pre show ?thesis by (auto simp: sweep_stmt_def)
  next
    case all_ok
    with swept(4) pre show ?thesis by (auto simp: sweep_stmt_def)
  qed
qed

theorem sweep_errors_fatal_witness:
  "fst (runApp world_vacuum_fails cli_ex order1 fresh) = Exit1 \<and> sweep_stmt Vacuum \<and>
   Sql Vacuum False \<in> set (trace (snd (runApp world_vacuum_fails cli_ex order1 fresh))) \<and>
   (\<exists>pre m. trace (snd (runApp world_vacuum_fails cli_ex order1 fresh)) =
               pre @ [Sql Vacuum False, Log Fatal m])"
proof -
  let ?r = "runApp world_vacuum_fails cli_ex order1 fresh"
  have h: "?r = (fst ?r, snd ?r)" by simp
  have m: "Sql Vacuum False \<in> set (trace (snd ?r))"
    by (simp add: run_defs ex_defs order1_def world_vacuum_fails_def)
  have v: "sweep_stmt Vacuum" by (simp add: sweep_stmt_def)
  from sweep_errors_fatal [OF h] m v show ?thesis by blast
qed

text \<open>The claim as stated fails: with the real channel table, an empty database file and a
  world in which only VACUUM fails, the invocation ends in \<open>log.Fatal\<close> with exit status
  1 instead of returning nil.\<close>

theorem sweep_errors_counterexample:
  "fst (runApp world_vacuum_fails cli_ex channelIds fresh) = Exit1 \<and>
   last (trace (snd (runApp world_vacuum_fails cli_ex channelIds fresh))) =
     Log Fatal ''error vacuuming db''"
  by code_simp

section \<open>Webhook failures\<close>

lemma post_item_transport_error:
  assumes "post_item w c item s = (r, s')" and "\<not> new_request_fails w (webhook c)"
    and "webhook_do w (Suc (length (trace s))) (webhook c) (message (UnescapeString w) item)
           = TransportError"
  shows "r = Some Exit1 \<and> store s' = store s \<and>
         trace s' = trace s @ [Log Debug ''posting item'',
           Post (webhook c) (message (UnescapeString w) item),
           Log Fatal ''error preparing http request'']"
  using assms by (auto simp: post_item_def Let_def)

lemma post_item_status:
  assumes "post_item w c item s = (r, s')" and "\<not> new_request_fails w (webhook c)"
    and "webhook_do w (Suc (length (trace s))) (webhook c) (message (UnescapeString w) item)
           = Status code"
  shows "\<exists>b. trace s' = trace s @
                [Log Debug ''posting item'', Post (webhook c) (message (UnescapeString w) item)] @
                (if code \<noteq> 204 then [Log Error ''unexpected http response code''] else []) @
                [Sql (InsertVideo (VideoId item)) b] @
                (if b then [] else [Log Fatal ''error inserting video into db'']) \<and>
             (if b then r = None \<and> VideoId item \<in> keys (videos_posted (store s'))
              else r = Some Exit1 \<and> store s' = store s)"
proof -
  let ?s2 = "emit (Post (webhook c) (message (UnescapeString w) item))
               (logmsg Debug ''posting item'' s)"
  let ?s3 = "if code \<noteq> 204 then logmsg Error ''unexpected http response code'' ?s2 else ?s2"
  obtain res s4 where e: "db_exec w (InsertVideo (VideoId item)) ?s3 = (res, s4)"
    by (cases "db_exec w (InsertVideo (VideoId item)) ?s3")
  have p: "post_item w c item s =
      (case res of Inl e \<Rightarrow> (Some Exit1, logmsg Fatal ''error inserting video into db'' s4)
       | Inr rs \<Rightarrow> (None, s4))"
    using assms(2,3) e by (simp add: post_item_def Let_def split: sum.splits)
  from e show ?thesis
  proof (cases rule: db_exec_cases)
    case fault
    with p assms(1) show ?thesis by (intro exI [of _ False]) auto
  next
    case (error e)
    with p assms(1) show ?thesis by (intro exI [of _ False]) auto
  next
    case (ok d rs)
    from ok(2) have "VideoId item \<in> keys (videos_posted d)"
      by (auto simp: insert_row_def keys_def split: option.splits if_splits sum.splits)
    with ok p assms(1) show ?thesis by (intro exI [of _ True]) auto
  qed
qed

lemma post_item_marks_video:
  assumes "post_item w c item s = (r, s')" and "\<not> new_request_fails w (webhook c)"
    and "webhook_do w (Suc (length (trace s))) (webhook c) (message (UnescapeString w) item)
           = Status code"
    and "\<forall>n q. \<not> storage_fault w n q"
    and "videos_posted (store s) = Some rows" and "VideoId item \<notin> fst ` set rows"
  shows "r = None \<and> Sql (InsertVideo (VideoId item)) True \<in> set (trace s') \<and>
         (\<exists>t. videos_posted (store s') = Some (rows @ [(VideoId item, t)]))"
  using assms
  by (cases "code = 204") (auto simp: post_item_def Let_def db_exec_def insert_row_def)

text \<open>
  C3 (amended). When the webhook answers with a status, whatever the status, the run goes
  on: a status other than 204 is logged as an error, the INSERT into \<open>videos_posted\<close> is
  executed next, and the handling of the item continues exactly when the insert succeeded,
  which it does whenever the storage does not fail and the identifier is not recorded yet;
  the video is then marked as announced. When the delivery itself fails (\<open>whClient.Do\<close>
  returns an error) the failure is logged at fatal level, the process exits with status 1
  and nothing is recorded for the video.
\<close>

theorem webhook_failure_policy:
  assumes "post_item w c item s = (r, s')" and "\<not> new_request_fails w (webhook c)"
    and "data = message (UnescapeString w) item"
    and "res = webhook_do w (Suc (length (trace s))) (webhook c) data"
  shows "(res = TransportError \<longrightarrow>
            r = Some Exit1 \<and> store s' = store s \<and>
            trace s' = trace s @ [Log Debug ''posting item'', Post (webhook c) data,
                                  Log Fatal ''error preparing http request'']) \<and>
         (\<forall>code. res = Status code \<longrightarrow>
            (\<exists>b. trace s' = trace s @
                    [Log Debug ''posting item'', Post (webhook c) data] @
                    (if code \<noteq> 204 then [Log Error ''unexpected http response code''] else []) @
                    [Sql (InsertVideo (VideoId item)) b] @
                    (if b then [] else [Log Fatal ''error inserting video into db'']) \<and>
                  (if b then r = None \<and> VideoId item \<in> keys (videos_posted (store s'))
                   else r = Some Exit1 \<and> store s' = store s)) \<and>
            ((\<forall>n q. \<not> storage_fault w n q) \<and>
             (\<exists>rows. videos_posted (store s) = Some rows \<and> VideoId item \<notin> fst ` set rows) \<longrightarrow>
               r = None \<and> Sql (InsertVideo (VideoId item)) True \<in> set (trace s') \<and>
               VideoId item \<in> keys (videos_posted (store s'))))"
proof -
  have 1: "res = TransportError \<longrightarrow>
            r = Some Exit1 \<and> store s' = store s \<and>
            trace s' = trace s @ [Log Debug ''posting item'', Post (webhook c) data,
                                  Log Fatal ''error preparing http request'']"
    using post_item_transport_error [OF assms(1,2)] assms(3,4) by simp
  have 2: "\<exists>b. trace s' = trace s @
                    [Log Debug ''posting item'', Post (webhook c) data] @
                    (if code \<noteq> 204 then [Log Error ''unexpected http response code''] else []) @
                    [Sql (InsertVideo (VideoId item)) b] @
                    (if b then [] else [Log Fatal ''error inserting video into db'']) \<and>
                  (if b then r = None \<and> VideoId item \<in> keys (videos_posted (store s'))
                   else r = Some Exit1 \<and> store s' = store s)"
    if "res = Status code" for code
    using post_item_status [OF assms(1,2), of code] assms(3,4) that by simp
  have 3: "r = None \<and> Sql (InsertVideo (VideoId item)) True \<in> set (trace s') \<and>
               VideoId item \<in> keys (videos_posted (store s'))"
    if st: "res = Status code"
      and a: "(\<forall>n q. \<not> storage_fault w n q) \<and>
       (\<exists>rows. videos_posted (store s) = Some rows \<and> VideoId item \<notin> fst ` set rows)"
    for code
  proof -
    from a obtain rows where
      rows: "videos_posted (store s) = Some rows" "VideoId item \<notin> fst ` set rows"
      by blast
    from st assms(3,4) have w:
      "webhook_do w (Suc (length (trace s))) (webhook c) (message (UnescapeString w) item)
         = Status code"
      by simp
    from a have nf: "\<forall>n q. \<not> storage_fault w n q" by blast
    from post_item_marks_video [OF assms(1,2) w nf rows] show ?thesis
      by (auto simp: keys_def)
  qed
  from 1 2 3 show ?thesis by blast
qed

theorem webhook_failure_policy_witness:
  "fst (post_item world_webhook_500 cli_ex item_v1 state_ex) = None \<and>
   Log Error ''unexpected http response code''
     \<in> set (trace (snd (post_item world_webhook_500 cli_ex item_v1 state_ex))) \<and>
   Sql (InsertVideo ''v1'') True
     \<in> set (trace (snd (post_item world_webhook_500 cli_ex item_v1 state_ex))) \<and>
   ''v1'' \<in> keys (videos_posted (store (snd (post_item world_webhook_500 cli_ex item_v1 state_ex)))) \<and>
   fst (post_item world_webhook_down cli_ex item_v1 state_ex) = Some Exit1 \<and>
   store (snd (post_item world_webhook_down cli_ex item_v1 state_ex)) = store state_ex"
proof -
  let ?p = "post_item world_webhook_500 cli_ex item_v1 state_ex"
  let ?q = "post_item world_webhook_down cli_ex item_v1 state_ex"
  have hp: "?p = (fst ?p, snd ?p)" and hq: "?q = (fst ?q, snd ?q)" by simp_all
  have n5: "\<not> new_request_fails world_webhook_500 (webhook cli_ex)"
    and nd: "\<not> new_request_fails world_webhook_down (webhook cli_ex)"
    by (simp_all add: world_webhook_500_def world_webhook_down_def world_ex_def)
  have r5: "webhook_do world_webhook_500 (Suc (length (trace state_ex))) (webhook cli_ex)
              (message (UnescapeString world_webhook_500) item_v1) = Status 500"
    and rd: "webhook_do world_webhook_down (Suc (length (trace state_ex))) (webhook cli_ex)
              (message (UnescapeString world_webhook_down) item_v1) = TransportError"
    by (simp_all add: world_webhook_500_def world_webhook_down_def world_ex_def)
  have f5: "\<forall>n q. \<not> storage_fault world_webhook_500 n q"
    by (simp add: world_webhook_500_def world_ex_def)
  have v: "\<exists>rows. videos_posted (store state_ex) = Some rows \<and> VideoId item_v1 \<notin> fst ` set rows"
    by (simp add: state_ex_def)
  have e: "Log Error ''unexpected http response code'' \<in> set (trace (snd ?p))"
    by (simp add: run_defs ex_defs world_webhook_500_def)
  from webhook_failure_policy [OF hp n5 refl r5 [symmetric]] f5 v
  have 1: "fst ?p = None \<and> Sql (InsertVideo (VideoId item_v1)) True \<in> set (trace (snd ?p)) \<and>
           VideoId item_v1 \<in> keys (videos_posted (store (snd ?p)))"
    by blast
  from webhook_failure_policy [OF hq nd refl rd [symmetric]]
  have 2: "fst ?q = Some Exit1 \<and> store (snd ?q) = store state_ex"
    by blast
  from 1 2 e show ?thesis by (simp add: item_v1_def)
qed

text \<open>The claim as stated fails: with the real channel table, an empty database file and a
  webhook that cannot be reached, the invocation ends in \<open>log.Fatal\<close> with exit status 1
  and video \<open>v1\<close> is never inserted into \<open>videos_posted\<close>.\<close>

theorem webhook_error_counterexample:
  "fst (runApp world_webhook_down cli_ex channelIds fresh) = Exit1 \<and>
   videos_posted (store (snd (runApp world_webhook_down cli_ex channelIds fresh))) = Some [] \<and>
   Sql (InsertVideo ''v1'') True
     \<notin> set (trace (snd (runApp world_webhook_down cli_ex channelIds fresh)))"
  by code_simp

section \<open>The notification message\<close>

lemma process_channel_events:
  assumes "process_channel w c ch s = (r, s')"
  shows "\<exists>tr. trace s' = trace s @ tr \<and> (\<forall>e \<in> set tr. channel_event w c (snd ch) e)"
  using assms
proof (cases rule: process_channel_cases)
  case (query_failed e s1)
  then show ?thesis by (auto simp: channel_event_def)
next
  case (skipped rs s1)
  then show ?thesis by (auto simp: channel_event_def)
next
  case (insert_failed e s1 s2)
  then show ?thesis by (auto simp: channel_event_def)
next
  case (scanned rs s1 s2 s4)
  let ?t = "clock w (length (trace s)) - 172800"
  let ?tr4 = "[Sql (SelectCheck (snd ch)) True, Sql (InsertCheck (snd ch)) True,
      Log Info ''checking for new videos'', SearchCall (snd ch) ?t]"
  have t4: "trace s4 = trace s @ ?tr4"
    using scanned(2,4,5) by simp
  have e4: "\<forall>e \<in> set ?tr4. channel_event w c (snd ch) e"
    by (auto simp: channel_event_def)
  show ?thesis
  proof (cases "search_do w (Suc (length (trace s2))) (snd ch) ?t")
    case None
    with scanned(6) have "s' = s4" by simp
    with t4 e4 show ?thesis by blast
  next
    case (Some items)
    with scanned(6) have "process_items w c items s4 = (r, s')" by simp
    from process_items_events [OF this] obtain tr where
      tr: "trace s' = trace s4 @ tr" "\<forall>e \<in> set tr. \<exists>item \<in> set items. item_event w c item e"
      by blast
    then have "\<forall>e \<in> set tr. channel_event w c (snd ch) e"
      by (auto simp: channel_event_def)
    with e4 have "\<forall>e \<in> set (?tr4 @ tr). channel_event w c (snd ch) e"
      by (metis Un_iff set_append)
    moreover from tr(1) t4 have "trace s' = trace s @ (?tr4 @ tr)" by simp
    ultimately show ?thesis by blast
  qed
qed

lemma process_channels_events:
  "process_channels w c order s = (r, s') \<Longrightarrow>
     \<exists>tr. trace s' = trace s @ tr \<and>
       (\<forall>e \<in> set tr. \<exists>ch \<in> set order. channel_event w c (snd ch) e)"
proof (induction order arbitrary: s)
  case Nil
  then show ?case by simp
next
  case (Cons ch order)
  obtain r1 s1 where p: "process_channel w c ch s = (r1, s1)"
    by (cases "process_channel w c ch s")
  from process_channel_events [OF p] obtain tr1 where
    tr1: "trace s1 = trace s @ tr1" "\<forall>e \<in> set tr1. channel_event w c (snd ch) e"
    by blast
  show ?case
  proof (cases r1)
    case (Some a)
    with Cons.prems p tr1 show ?thesis by auto
  next
    case None
    with Cons.prems p have "process_channels w c order s1 = (r, s')" by simp
    from Cons.IH [OF this] obtain tr2 where
      "trace s' = trace s1 @ tr2"
      "\<forall>e \<in> set tr2. \<exists>ch \<in> set order. channel_event w c (snd ch) e"
      by blast
    with tr1 have "trace s' = trace s @ (tr1 @ tr2) \<and>
        (\<forall>e \<in> set (tr1 @ tr2). \<exists>ch' \<in> set (ch # order). channel_event w c (snd ch') e)"
      by auto
    then show ?thesis by blast
  qed
qed

lemma bootstrap_events:
  assumes "bootstrap w s = (r, s')"
  shows "\<exists>tr. trace s' = trace s @ tr \<and> (\<forall>e \<in> set tr. bootstrap_event e)"
  using assms
  by (auto simp: bootstrap_def Let_def split: prod.splits sum.splits elim!: db_exec_cases)

text \<open>The trace of an invocation: two log lines, the bootstrap, the channel loop, the
  sweep.\<close>

lemma runApp_trace:
  assumes "runApp w c order d = (out, s)"
  shows "\<exists>tb tl ts. trace s = trace (start d) @ tb @ tl @ ts \<and>
           (\<forall>e \<in> set tb. bootstrap_event e) \<and>
           (\<forall>e \<in> set tl. \<exists>ch \<in> set order. channel_event w c (snd ch) e) \<and>
           (\<forall>e \<in> set ts. sweep_event e)"
  using assms
proof (cases rule: runApp_cases)
  case open_failed
  then have "trace s = trace (start d) @ [] @ [] @ []" by simp
  then show ?thesis by (metis empty_iff empty_set)
next
  case bootstrap_failed
  from bootstrap_events [OF bootstrap_failed(2)] obtain tb where
    "trace s = trace (start d) @ tb" "\<forall>e \<in> set tb. bootstrap_event e" by blast
  then have "trace s = trace (start d) @ tb @ [] @ [] \<and> (\<forall>e \<in> set tb. bootstrap_event e)"
    by simp
  then show ?thesis by (metis empty_iff empty_set)
next
  case (service_failed s1)
  from bootstrap_events [OF service_failed(2)] obtain tb where
    tb: "trace s1 = trace (start d) @ tb" "\<forall>e \<in> set tb. bootstrap_event e" by blast
  let ?ts = "[Log Fatal ''Error creating new YouTube client'']"
  from tb service_failed(3) have "trace s = trace (start d) @ tb @ [] @ ?ts \<and>
      (\<forall>e \<in> set tb. bootstrap_event e) \<and> (\<forall>e \<in> set ?ts. sweep_event e)"
    by simp
  then show ?thesis by (metis empty_iff empty_set)
next
  case (loop_ended a s1)
  from bootstrap_events [OF loop_ended(2)] obtain tb where
    tb: "trace s1 = trace (start d) @ tb" "\<forall>e \<in> set tb. bootstrap_event e" by blast
  from process_channels_events [OF loop_ended(3)] obtain tl where
    tl: "trace s = trace s1 @ tl" "\<forall>e \<in> set tl. \<exists>ch \<in> set order. channel_event w c (snd ch) e"
    by blast
  from tb tl have "trace s = trace (start d) @ tb @ tl @ []" by simp
  with tb(2) tl(2) show ?thesis by (metis empty_iff empty_set)
next
  case (swept r s1 s2)
  from bootstrap_events [OF swept(1)] obtain tb where
    tb: "trace s1 = trace (start d) @ tb" "\<forall>e \<in> set tb. bootstrap_event e" by blast
  from process_channels_events [OF swept(2)] obtain tl where
    tl: "trace s2 = trace s1 @ tl" "\<forall>e \<in> set tl. \<exists>ch \<in> set order. channel_event w c (snd ch) e"
    by blast
  from cleanup_trace [OF swept(3)] obtain ts where
    ts: "trace s = trace s2 @ ts" "\<forall>e \<in> set ts. sweep_event e" by blast
  from tb tl ts have "trace s = trace (start d) @ tb @ tl @ ts" by simp
  with tb(2) tl(2) ts(2) show ?thesis by blast
qed

lemma runApp_posts:
  assumes "runApp w c order d = (out, s)" and "Post u body \<in> set (trace s)"
  shows "u = webhook c \<and>
         (\<exists>item. Kind item = ''youtube#video'' \<and> body = message (UnescapeString w) item)"
proof -
  from runApp_trace [OF assms(1)] obtain tb tl ts where
    t: "trace s = trace (start d) @ tb @ tl @ ts"
       "\<forall>e \<in> set tb. bootstrap_event e"
       "\<forall>e \<in> set tl. \<exists>ch \<in> set order. channel_event w c (snd ch) e"
       "\<forall>e \<in> set ts. sweep_event e"
    by blast
  from assms(2) t(1) have "Post u body \<in> set tb \<or> Post u body \<in> set tl \<or> Post u body \<in> set ts"
    by (auto simp: start_def)
  moreover have "Post u body \<notin> set tb" using t(2) by fastforce
  moreover have "Post u body \<notin> set ts" using t(4) by fastforce
  ultimately have "Post u body \<in> set tl" by blast
  with t(3) obtain ch where "ch \<in> set order" "channel_event w c (snd ch) (Post u body)"
    by blast
  then obtain item where "item_event w c item (Post u body)"
    by (auto simp: channel_event_def)
  then show ?thesis by (auto simp: item_event_def)
qed

lemma starts_with_append [simp]: "starts_with (p @ s) p"
  by (induction p) auto

lemma contains_starts: "starts_with s p \<Longrightarrow> contains s p"
  by (cases s) auto

lemma contains_append_left: "contains s p \<Longrightarrow> contains (a @ s) p"
  by (induction a) auto

lemma contains_middle: "contains (a @ p @ b) p"
  by (simp add: contains_append_left contains_starts)

section \<open>The scheduler's decision\<close>

lemma process_channel_skip:
  assumes "channel_check_times (store s) = Some rows" and "(k, T) \<in> set rows"
    and "\<not> storage_fault w (length (trace s)) (SelectCheck k)"
  shows "process_channel w c (n, k) s =
           (None, s\<lparr>trace := trace s @ [Sql (SelectCheck k) True,
                      Log Debug ''channel checked less than 12 hours ago, skipping'']\<rparr>)"
proof -
  from assms(2) have "filter (\<lambda>r. fst r = k) rows \<noteq> []"
    by (force simp: filter_empty_conv)
  with assms(1,3) show ?thesis
    by (simp add: process_channel_def db_exec_def select_by_id_def Let_def emit_def logmsg_def)
qed

lemma process_channel_scan:
  assumes "channel_check_times (store s) = Some rows" and "k \<notin> fst ` set rows"
    and "\<not> storage_fault w (length (trace s)) (SelectCheck k)"
    and "\<not> storage_fault w (Suc (length (trace s))) (InsertCheck k)"
    and "process_channel w c (n, k) s = (r, s')"
  shows "\<exists>tr. trace s' = trace s @ [Sql (SelectCheck k) True, Sql (InsertCheck k) True,
                  Log Info ''checking for new videos'',
                  SearchCall k (clock w (length (trace s)) - 172800)] @ tr"
proof -
  from assms(2) have f: "filter (\<lambda>r. fst r = k) rows = []"
    by (auto simp: filter_empty_conv)
  have sel: "db_exec w (SelectCheck k) s = (Inr [], emit (Sql (SelectCheck k) True) s)"
    using assms(1,3) f by (simp add: db_exec_def select_by_id_def emit_def)
  have "\<exists>s2. db_exec w (InsertCheck k) (emit (Sql (SelectCheck k) True) s) = (Inr [], s2)"
    using assms(1,2,4) by (simp add: db_exec_def insert_row_def)
  then obtain s2 where ins: "db_exec w (InsertCheck k) (emit (Sql (SelectCheck k) True) s) = (Inr [], s2)"
    by blast
  from assms(5) show ?thesis
  proof (cases rule: process_channel_cases)
    case (query_failed e s1)
    with sel show ?thesis by simp
  next
    case (skipped rs s1)
    with sel show ?thesis by simp
  next
    case (insert_failed e s1 s2')
    with sel ins show ?thesis by simp
  next
    case (scanned rs s1 s2' s4)
    let ?t = "clock w (length (trace s)) - 172800"
    have t4: "trace s4 = trace s @ [Sql (SelectCheck k) True, Sql (InsertCheck k) True,
        Log Info ''checking for new videos'', SearchCall k ?t]"
      using scanned(2,4,5) by simp
    show ?thesis
    proof (cases "search_do w (Suc (length (trace s2'))) (snd (n, k)) (clock w (length (trace s)) - 172800)")
      case None
      with scanned(6) have "s' = s4" by simp
      with t4 show ?thesis by simp
    next
      case (Some items)
      with scanned(6) have "process_items w c items s4 = (r, s')" by simp
      from process_items_events [OF this] t4 show ?thesis by auto
    qed
  qed
qed

lemma append_eq_not_in_prefix:
  assumes "xs @ ts = pre @ x # post" and "x \<notin> set xs"
  shows "\<exists>ts1. ts = ts1 @ x # post"
proof -
  from assms(1) obtain us where
    "xs = pre @ us \<and> us @ ts = x # post \<or> xs @ us = pre \<and> ts = us @ x # post"
    by (auto simp: append_eq_append_conv2)
  then show ?thesis
  proof
    assume a: "xs = pre @ us \<and> us @ ts = x # post"
    show ?thesis
    proof (cases us)
      case Nil
      with a show ?thesis by auto
    next
      case (Cons u us')
      with a have "x \<in> set xs" by auto
      with assms(2) show ?thesis by blast
    qed
  next
    assume "xs @ us = pre \<and> ts = us @ x # post"
    then show ?thesis by blast
  qed
qed

lemma channel_event_sql: "channel_event w c k (Sql q b) \<Longrightarrow> loop_stmt q"
  by (auto simp: channel_event_def item_event_def)

lemma sweep_not_loop: "sweep_stmt q \<Longrightarrow> \<not> loop_stmt q"
  by (auto simp: sweep_stmt_def)

lemma sweep_not_bootstrap: "sweep_stmt q \<Longrightarrow> \<not> bootstrap_event (Sql q b)"
  by (auto simp: sweep_stmt_def)

lemma runApp_sweep_last:
  assumes "runApp w c order d = (out, s)" and "trace s = pre @ Sql q b # post"
    and "sweep_stmt q"
  shows "\<forall>e \<in> set post. sweep_event e"
proof -
  from runApp_trace [OF assms(1)] obtain tb tl ts where
    t: "trace s = trace (start d) @ tb @ tl @ ts"
       "\<forall>e \<in> set tb. bootstrap_event e"
       "\<forall>e \<in> set tl. \<exists>ch \<in> set order. channel_event w c (snd ch) e"
       "\<forall>e \<in> set ts. sweep_event e"
    by blast
  have "Sql q b \<notin> set (trace (start d))" by (simp add: start_def)
  moreover have "Sql q b \<notin> set tb"
  proof
    assume "Sql q b \<in> set tb"
    with t(2) have "bootstrap_event (Sql q b)" by blast
    with sweep_not_bootstrap [OF assms(3)] show False by blast
  qed
  moreover have "Sql q b \<notin> set tl"
  proof
    assume "Sql q b \<in> set tl"
    with t(3) obtain ch where "ch \<in> set order" "channel_event w c (snd ch) (Sql q b)" by blast
    with assms(3) show False
      using channel_event_sql sweep_not_loop by blast
  qed
  ultimately have notin: "Sql q b \<notin> set (trace (start d) @ tb @ tl)" by simp
  have "(trace (start d) @ tb @ tl) @ ts = trace s" by (simp only: t(1) append_assoc)
  then have eq: "(trace (start d) @ tb @ tl) @ ts = pre @ Sql q b # post"
    by (simp only: assms(2))
  from append_eq_not_in_prefix [OF eq notin] obtain ts1 where "ts = ts1 @ Sql q b # post" ..
  with t(4) show ?thesis by simp
qed

text \<open>
  C10. The scheduler's decision for a channel depends on whether \<open>channel_check_times\<close> has
  a row for the channel, and on nothing else: with a row, whatever its timestamp and
  whatever the clock reads (so also a mark older than 12 hours that has not been pruned),
  the channel is skipped, the store is untouched and the lookup and one log line are the
  only events; without a row the mark is inserted and the search is called. Stale marks
  are pruned only at the end of an invocation: nothing but the rest of the sweep and log
  lines follows the DELETE on \<open>channel_check_times\<close>, so no scheduling decision does.
  (Both decisions are stated for a storage that does not fail at these statements.)
\<close>

theorem skip_on_existence_only:
  "(channel_check_times (store s) = Some rows \<and> (k, T) \<in> set rows \<and>
      \<not> storage_fault w (length (trace s)) (SelectCheck k) \<longrightarrow>
        process_channel w c (n, k) s =
          (None, s\<lparr>trace := trace s @ [Sql (SelectCheck k) True,
                     Log Debug ''channel checked less than 12 hours ago, skipping'']\<rparr>)) \<and>
   (channel_check_times (store s) = Some rows \<and> k \<notin> fst ` set rows \<and>
      \<not> storage_fault w (length (trace s)) (SelectCheck k) \<and>
      \<not> storage_fault w (Suc (length (trace s))) (InsertCheck k) \<longrightarrow>
        (\<exists>tr. trace (snd (process_channel w c (n, k) s)) =
                 trace s @ [Sql (SelectCheck k) True, Sql (InsertCheck k) True,
                   Log Info ''checking for new videos'',
                   SearchCall k (clock w (length (trace s)) - 172800)] @ tr)) \<and>
   (runApp w c order d = (out, s') \<longrightarrow>
      (\<forall>pre b post. trace s' = pre @ Sql DeleteChecks b # post \<longrightarrow>
         (\<forall>e \<in> set post. sweep_event e)))"
proof -
  have 1: "channel_check_times (store s) = Some rows \<and> (k, T) \<in> set rows \<and>
      \<not> storage_fault w (length (trace s)) (SelectCheck k) \<longrightarrow>
        process_channel w c (n, k) s =
          (None, s\<lparr>trace := trace s @ [Sql (SelectCheck k) True,
                     Log Debug ''channel checked less than 12 hours ago, skipping'']\<rparr>)"
    by (intro impI, elim conjE, rule process_channel_skip)
  have 2: "channel_check_times (store s) = Some rows \<and> k \<notin> fst ` set rows \<and>
      \<not> storage_fault w (length (trace s)) (SelectCheck k) \<and>
      \<not> storage_fault w (Suc (length (trace s))) (InsertCheck k) \<longrightarrow>
        (\<exists>tr. trace (snd (process_channel w c (n, k) s)) =
                 trace s @ [Sql (SelectCheck k) True, Sql (InsertCheck k) True,
                   Log Info ''checking for new videos'',
                   SearchCall k (clock w (length (trace s)) - 172800)] @ tr)"
  proof (intro impI, elim conjE)
    assume a: "channel_check_times (store s) = Some rows" "k \<notin> fst ` set rows"
      "\<not> storage_fault w (length (trace s)) (SelectCheck k)"
      "\<not> storage_fault w (Suc (length (trace s))) (InsertCheck k)"
    have "process_channel w c (n, k) s =
            (fst (process_channel w c (n, k) s), snd (process_channel w c (n, k) s))"
      by simp
    from process_channel_scan [OF a this] show "\<exists>tr. trace (snd (process_channel w c (n, k) s)) =
                 trace s @ [Sql (SelectCheck k) True, Sql (InsertCheck k) True,
                   Log Info ''checking for new videos'',
                   SearchCall k (clock w (length (trace s)) - 172800)] @ tr" .
  qed
  have 3: "runApp w c order d = (out, s') \<longrightarrow>
      (\<forall>pre b post. trace s' = pre @ Sql DeleteChecks b # post \<longrightarrow>
         (\<forall>e \<in> set post. sweep_event e))"
  proof (intro impI allI)
    fix pre b post
    assume "runApp w c order d = (out, s')" "trace s' = pre @ Sql DeleteChecks b # post"
    from runApp_sweep_last [OF this] show "\<forall>e \<in> set post. sweep_event e"
      by (simp add: sweep_stmt_def)
  qed
  show ?thesis by (rule conjI [OF 1 conjI [OF 2 3]])
qed

theorem skip_on_existence_only_witness:
  "90400 + 43200 < clock (world_ex 1300000) (length (trace stale_ex)) \<and>
   process_channel (world_ex 1300000) cli_ex (''Mentour Pilot'', ''UCwpHKudUkP5tNgmMdexB3ow'')
       stale_ex =
     (None, stale_ex\<lparr>trace := trace stale_ex @
        [Sql (SelectCheck ''UCwpHKudUkP5tNgmMdexB3ow'') True,
         Log Debug ''channel checked less than 12 hours ago, skipping'']\<rparr>) \<and>
   (\<exists>tr. trace (snd (process_channel (world_ex 1300000) cli_ex
                       (''LewDix Aviation'', ''UCPiPmwDammRsj7ZIzKyc74A'') stale_ex)) =
      trace stale_ex @
      [Sql (SelectCheck ''UCPiPmwDammRsj7ZIzKyc74A'') True,
       Sql (InsertCheck ''UCPiPmwDammRsj7ZIzKyc74A'') True,
       Log Info ''checking for new videos'',
       SearchCall ''UCPiPmwDammRsj7ZIzKyc74A''
         (clock (world_ex 1300000) (length (trace stale_ex)) - 172800)] @ tr)"
proof -
  let ?w = "world_ex 1300000"
  let ?k = "''UCwpHKudUkP5tNgmMdexB3ow''"
  let ?k2 = "''UCPiPmwDammRsj7ZIzKyc74A''"
  have a: "channel_check_times (store stale_ex) = Some [(?k, 90400)] \<and>
           (?k, 90400) \<in> set [(?k, 90400)] \<and>
           \<not> storage_fault ?w (length (trace stale_ex)) (SelectCheck ?k)"
    by (simp add: stale_ex_def world_ex_def)
  have b: "channel_check_times (store stale_ex) = Some [(?k, 90400)] \<and>
           ?k2 \<notin> fst ` set [(?k, 90400)] \<and>
           \<not> storage_fault ?w (length (trace stale_ex)) (SelectCheck ?k2) \<and>
           \<not> storage_fault ?w (Suc (length (trace stale_ex))) (InsertCheck ?k2)"
    by (simp add: stale_ex_def world_ex_def)
  have t: "90400 + 43200 < clock ?w (length (trace stale_ex))"
    by (simp add: stale_ex_def world_ex_def)
  note 1 = mp [OF skip_on_existence_only
      [of stale_ex "[(?k, 90400)]" ?k 90400 ?w cli_ex "''Mentour Pilot''", THEN conjunct1] a]
  note 2 = mp [OF skip_on_existence_only
      [of stale_ex "[(?k, 90400)]" ?k2 90400 ?w cli_ex "''LewDix Aviation''",
       THEN conjunct2, THEN conjunct1] b]
  show ?thesis by (rule conjI [OF t conjI [OF 1 2]])
qed

section \<open>The scan interval\<close>

lemma bootstrap_store:
  assumes "bootstrap w s = (r, s')"
  shows "rows_of (videos_posted (store s)) \<subseteq> rows_of (videos_posted (store s')) \<and>
         rows_of (channel_check_times (store s)) \<subseteq> rows_of (channel_check_times (store s')) \<and>
         (keys_distinct (videos_posted (store s)) \<longrightarrow> keys_distinct (videos_posted (store s'))) \<and>
         (keys_distinct (channel_check_times (store s)) \<longrightarrow>
            keys_distinct (channel_check_times (store s')))"
proof -
  obtain res1 s2 where e1:
    "db_exec w CreateVideosPosted (logmsg Debug ''creating videos_posted table if required'' s)
       = (res1, s2)"
    by (cases "db_exec w CreateVideosPosted
                 (logmsg Debug ''creating videos_posted table if required'' s)")
  obtain res2 s4 where e2:
    "db_exec w CreateChannelCheckTimes
       (logmsg Debug ''creating channel_check_times table if required'' s2) = (res2, s4)"
    by (cases "db_exec w CreateChannelCheckTimes
                 (logmsg Debug ''creating channel_check_times table if required'' s2)")
  have 1: "rows_of (videos_posted (store s)) \<subseteq> rows_of (videos_posted (store s2)) \<and>
           rows_of (channel_check_times (store s)) \<subseteq> rows_of (channel_check_times (store s2))"
    using e1
    by (cases rule: db_exec_cases)
       (auto simp: rows_of_def create_table_if_not_exists_def split: option.splits)
  have 2: "rows_of (videos_posted (store s2)) \<subseteq> rows_of (videos_posted (store s4)) \<and>
           rows_of (channel_check_times (store s2)) \<subseteq> rows_of (channel_check_times (store s4))"
    using e2
    by (cases rule: db_exec_cases)
       (auto simp: rows_of_def create_table_if_not_exists_def split: option.splits)
  note k1 = db_exec_keys_distinct [OF e1]
  note k2 = db_exec_keys_distinct [OF e2]
  have "store s' = store s2 \<or> store s' = store s4"
    using assms e1 e2 by (auto simp: bootstrap_def Let_def split: sum.splits)
  with 1 2 k1 k2 show ?thesis by auto
qed

lemma loop_steps_keys_distinct:
  assumes "loop_steps w s s'"
  shows "(keys_distinct (videos_posted (store s)) \<longrightarrow> keys_distinct (videos_posted (store s'))) \<and>
         (keys_distinct (channel_check_times (store s)) \<longrightarrow>
            keys_distinct (channel_check_times (store s')))"
  using assms
proof (induction rule: loop_steps.induct)
  case (executed s s1 q res s2)
  with db_exec_keys_distinct [OF executed(3)] show ?case by blast
qed auto

lemma select_present:
  assumes "(k, T) \<in> rows_of (channel_check_times (store s))"
  shows "db_exec w (SelectCheck k) s \<noteq> (Inr [], s1)"
proof -
  from assms obtain rows where r: "channel_check_times (store s) = Some rows" "(k, T) \<in> set rows"
    by (auto simp: rows_of_def split: option.splits)
  then have "filter (\<lambda>r. fst r = k) rows \<noteq> []" by (force simp: filter_empty_conv)
  with r(1) show ?thesis
    by (auto simp: db_exec_def select_by_id_def Let_def)
qed

lemma process_channel_marked_no_search:
  assumes "process_channel w c ch s = (r, s')"
    and "(k, T) \<in> rows_of (channel_check_times (store s))"
  shows "\<exists>tr. trace s' = trace s @ tr \<and> (\<forall>t. SearchCall k t \<notin> set tr)"
proof (cases "snd ch = k")
  case True
  from assms(1) show ?thesis
  proof (cases rule: process_channel_cases)
    case (query_failed e s1)
    then show ?thesis by simp
  next
    case (skipped rs s1)
    then show ?thesis by simp
  next
    case (insert_failed e s1 s2)
    with select_present [OF assms(2)] True show ?thesis by blast
  next
    case (scanned rs s1 s2 s4)
    with select_present [OF assms(2)] True show ?thesis by blast
  qed
next
  case False
  from process_channel_events [OF assms(1)] obtain tr where
    tr: "trace s' = trace s @ tr" "\<forall>e \<in> set tr. channel_event w c (snd ch) e"
    by blast
  have "SearchCall k t \<notin> set tr" for t
  proof
    assume "SearchCall k t \<in> set tr"
    with tr(2) have "channel_event w c (snd ch) (SearchCall k t)" by blast
    with False show False by (auto simp: channel_event_def item_event_def)
  qed
  with tr(1) show ?thesis by blast
qed

lemma process_channels_marked_no_search:
  "process_channels w c order s = (r, s') \<Longrightarrow>
   (k, T) \<in> rows_of (channel_check_times (store s)) \<Longrightarrow>
     \<exists>tr. trace s' = trace s @ tr \<and> (\<forall>t. SearchCall k t \<notin> set tr)"
proof (induction order arbitrary: s)
  case Nil
  then show ?case by simp
next
  case (Cons ch order)
  obtain r1 s1 where p: "process_channel w c ch s = (r1, s1)"
    by (cases "process_channel w c ch s")
  from process_channel_marked_no_search [OF p Cons.prems(2)] obtain tr1 where
    tr1: "trace s1 = trace s @ tr1" "\<forall>t. SearchCall k t \<notin> set tr1"
    by blast
  from loop_steps_rows [OF process_channel_steps [OF p]] Cons.prems(2)
  have m1: "(k, T) \<in> rows_of (channel_check_times (store s1))" by blast
  show ?case
  proof (cases r1)
    case (Some a)
    with Cons.prems p tr1 show ?thesis by auto
  next
    case None
    with Cons.prems p have "process_channels w c order s1 = (r, s')" by simp
    from Cons.IH [OF this m1] obtain tr2 where
      "trace s' = trace s1 @ tr2" "\<forall>t. SearchCall k t \<notin> set tr2"
      by blast
    with tr1 have "trace s' = trace s @ (tr1 @ tr2) \<and> (\<forall>t. SearchCall k t \<notin> set (tr1 @ tr2))"
      by simp
    then show ?thesis by blast
  qed
qed

lemma cleanup_keeps_fresh:
  assumes "cleanup w s = (r, s')"
    and "(k, T) \<in> rows_of (channel_check_times (store s))"
    and "\<forall>n. clock w n \<le> T + 43200"
  shows "(k, T) \<in> rows_of (channel_check_times (store s'))"
proof -
  let ?s1 = "logmsg Debug ''cleaning db'' s"
  obtain res2 s2 where e2: "db_exec w DeleteVideos ?s1 = (res2, s2)"
    by (cases "db_exec w DeleteVideos ?s1")
  obtain res3 s3 where e3: "db_exec w DeleteChecks s2 = (res3, s3)"
    by (cases "db_exec w DeleteChecks s2")
  obtain res4 s4 where e4: "db_exec w Vacuum s3 = (res4, s4)"
    by (cases "db_exec w Vacuum s3")
  have 2: "channel_check_times (store s2) = channel_check_times (store s)"
    using e2 by (cases rule: db_exec_cases) (auto split: sum.splits)
  have 3: "(k, T) \<in> rows_of (channel_check_times (store s3))"
    using e3
  proof (cases rule: db_exec_cases)
    case (ok d rs)
    from assms(3) have "clock w (length (trace s2)) \<le> T + 43200" by blast
    then have "clock w (length (trace s2)) - 43200 \<le> T" by linarith
    moreover from assms(2) 2 obtain rows where
      rows: "channel_check_times (store s2) = Some rows" "(k, T) \<in> set rows"
      by (auto simp: rows_of_def split: option.splits)
    moreover from ok(2) rows(1) have "channel_check_times d =
        Some (filter (\<lambda>r. clock w (length (trace s2)) - 43200 \<le> snd r) rows)"
      by auto
    ultimately have "(k, T) \<in> rows_of (channel_check_times d)"
      by (simp add: rows_of_def)
    with ok show ?thesis by simp
  qed (use assms(2) 2 in auto)
  have 4: "store s4 = store s3"
    using e4 by (cases rule: db_exec_cases) auto
  have "store s' = store s2 \<or> store s' = store s3 \<or> store s' = store s4"
    using assms(1) e2 e3 e4 by (auto simp: cleanup_def Let_def split: sum.splits)
  with assms(2) 2 3 4 show ?thesis by auto
qed

lemma no_search_mem: "no_search tr \<Longrightarrow> SearchCall k t \<notin> set tr"
  by (auto simp: no_search_def)

lemma runApp_marked_no_search:
  assumes "runApp w c order d = (out, s)"
    and "(k, T) \<in> rows_of (channel_check_times d)"
  shows "\<forall>t. SearchCall k t \<notin> set (trace s)"
  using assms(1)
proof (cases rule: runApp_cases)
  case open_failed
  then show ?thesis by (simp add: start_def)
next
  case bootstrap_failed
  from bootstrap_no_search [OF bootstrap_failed(2)] obtain tb where
    "trace s = trace (start d) @ tb" "no_search tb" by blast
  then show ?thesis by (simp add: start_def no_search_mem)
next
  case (service_failed s1)
  from bootstrap_no_search [OF service_failed(2)] obtain tb where
    "trace s1 = trace (start d) @ tb" "no_search tb" by blast
  with service_failed(3) show ?thesis by (simp add: start_def no_search_mem)
next
  case (loop_ended a s1)
  from bootstrap_store [OF loop_ended(2)] assms(2)
  have m: "(k, T) \<in> rows_of (channel_check_times (store s1))" by (auto simp: start_def)
  from bootstrap_no_search [OF loop_ended(2)] obtain tb where
    tb: "trace s1 = trace (start d) @ tb" "no_search tb" by blast
  from process_channels_marked_no_search [OF loop_ended(3) m] obtain tl where
    "trace s = trace s1 @ tl" "\<forall>t. SearchCall k t \<notin> set tl" by blast
  with tb show ?thesis by (simp add: start_def no_search_mem)
next
  case (swept r s1 s2)
  from bootstrap_store [OF swept(1)] assms(2)
  have m: "(k, T) \<in> rows_of (channel_check_times (store s1))" by (auto simp: start_def)
  from bootstrap_no_search [OF swept(1)] obtain tb where
    tb: "trace s1 = trace (start d) @ tb" "no_search tb" by blast
  from process_channels_marked_no_search [OF swept(2) m] obtain tl where
    tl: "trace s2 = trace s1 @ tl" "\<forall>t. SearchCall k t \<notin> set tl" by blast
  from cleanup_no_search [OF swept(3)] obtain ts where
    "trace s = trace s2 @ ts" "no_search ts" by blast
  with tb tl show ?thesis by (simp add: start_def no_search_mem)
qed

lemma runApp_keeps_fresh:
  assumes "runApp w c order d = (out, s)"
    and "(k, T) \<in> rows_of (channel_check_times d)"
    and "\<forall>n. clock w n \<le> T + 43200"
  shows "(k, T) \<in> rows_of (channel_check_times (store s))"
  using assms(1)
proof (cases rule: runApp_cases)
  case open_failed
  with assms(2) show ?thesis by (simp add: start_def)
next
  case bootstrap_failed
  from bootstrap_store [OF bootstrap_failed(2)] assms(2) show ?thesis
    by (auto simp: start_def)
next
  case (service_failed s1)
  from bootstrap_store [OF service_failed(2)] assms(2) service_failed(3) show ?thesis
    by (auto simp: start_def)
next
  case (loop_ended a s1)
  from bootstrap_store [OF loop_ended(2)] assms(2)
  have m: "(k, T) \<in> rows_of (channel_check_times (store s1))" by (auto simp: start_def)
  with loop_steps_rows [OF process_channels_steps [OF loop_ended(3)]] show ?thesis by blast
next
  case (swept r s1 s2)
  from bootstrap_store [OF swept(1)] assms(2)
  have m: "(k, T) \<in> rows_of (channel_check_times (store s1))" by (auto simp: start_def)
  with loop_steps_rows [OF process_channels_steps [OF swept(2)]]
  have "(k, T) \<in> rows_of (channel_check_times (store s2))" by blast
  from cleanup_keeps_fresh [OF swept(3) this assms(3)] show ?thesis .
qed

lemma cycles_skip:
  "(k, T) \<in> rows_of (channel_check_times d) \<Longrightarrow>
   \<forall>wo \<in> set runs. \<forall>n. clock (fst wo) n \<le> T + 43200 \<Longrightarrow>
     \<forall>r \<in> set (cycles c (runs @ [final]) d). \<forall>t. SearchCall k t \<notin> set (trace (snd r))"
proof (induction runs arbitrary: d)
  case Nil
  then show ?case
    using runApp_marked_no_search [of "fst final" c "snd final" d _ _ k T]
    by (simp add: Let_def) (metis prod.collapse)
next
  case (Cons wo runs)
  let ?r = "runApp (fst wo) c (snd wo) d"
  have h: "?r = (fst ?r, snd ?r)" by simp
  from runApp_marked_no_search [OF h Cons.prems(1)]
  have 1: "\<forall>t. SearchCall k t \<notin> set (trace (snd ?r))" .
  from Cons.prems(2) have "\<forall>n. clock (fst wo) n \<le> T + 43200" by simp
  from runApp_keeps_fresh [OF h Cons.prems(1) this]
  have m: "(k, T) \<in> rows_of (channel_check_times (store (snd ?r)))" .
  from Cons.prems(2) have "\<forall>wo \<in> set runs. \<forall>n. clock (fst wo) n \<le> T + 43200" by simp
  from Cons.IH [OF m this] 1 show ?case by (simp add: Let_def)
qed

lemma cleanup_outcome: "cleanup w s = (Some a, s') \<Longrightarrow> a = Exit1"
  by (erule cleanup_cases) auto

lemma runApp_prunes_stale:
  assumes "runApp w c order d = (ReturnNil, s)"
    and "keys_distinct (channel_check_times d)"
    and "(k, T) \<in> rows_of (channel_check_times d)"
    and "\<forall>n. T + 43200 < clock w n"
  shows "\<exists>rows. channel_check_times (store s) = Some rows \<and> k \<notin> fst ` set rows"
  using assms(1)
proof (cases rule: runApp_cases)
  case (loop_ended a s1)
  from process_channels_outcome [OF loop_ended(3)] loop_ended(1) show ?thesis by auto
next
  case (swept r s1 s2)
  from swept(3,4) have r: "r = None" by (cases r) (auto dest: cleanup_outcome)
  from bootstrap_store [OF swept(1)] assms(2,3)
  have 1: "(k, T) \<in> rows_of (channel_check_times (store s1))"
    "keys_distinct (channel_check_times (store s1))"
    by (auto simp: start_def)
  from loop_steps_rows [OF process_channels_steps [OF swept(2)]]
    loop_steps_keys_distinct [OF process_channels_steps [OF swept(2)]] 1
  have 2: "(k, T) \<in> rows_of (channel_check_times (store s2))"
    "keys_distinct (channel_check_times (store s2))"
    by blast+
  from cleanup_None [OF swept(3) [unfolded r]] obtain cs where
    cs: "channel_check_times (store s2) = Some cs"
        "channel_check_times (store s) =
           Some (filter (\<lambda>r. clock w (length (trace s2) + 2) - 43200 \<le> snd r) cs)"
    by auto
  from 2 cs(1) have d: "distinct (map fst cs)" "(k, T) \<in> set cs"
    by (auto simp: keys_distinct_def rows_of_def)
  have "k \<notin> fst ` set (filter (\<lambda>r. clock w (length (trace s2) + 2) - 43200 \<le> snd r) cs)"
  proof
    assume "k \<in> fst ` set (filter (\<lambda>r. clock w (length (trace s2) + 2) - 43200 \<le> snd r) cs)"
    then obtain T' where "(k, T') \<in> set cs" "clock w (length (trace s2) + 2) - 43200 \<le> T'"
      by auto
    with d have "clock w (length (trace s2) + 2) - 43200 \<le> T"
      using eq_key_imp_eq_value by fastforce
    moreover from assms(4) have "T + 43200 < clock w (length (trace s2) + 2)" by blast
    ultimately show False by linarith
  qed
  with cs(2) show ?thesis by blast
qed auto

lemma process_channel_skip_rows:
  assumes "(k, T) \<in> rows_of (channel_check_times (store s))"
    and "\<not> storage_fault w (length (trace s)) (SelectCheck k)"
  shows "process_channel w c (n, k) s =
           (None, s\<lparr>trace := trace s @ [Sql (SelectCheck k) True,
                      Log Debug ''channel checked less than 12 hours ago, skipping'']\<rparr>)"
proof -
  from assms(1) obtain rows where "channel_check_times (store s) = Some rows" "(k, T) \<in> set rows"
    by (auto simp: rows_of_def split: option.splits)
  from process_channel_skip [OF this assms(2)] show ?thesis .
qed

text \<open>
  C6. Let \<open>channel_check_times\<close> hold the mark \<open>(k, T)\<close>: channel \<open>k\<close> was checked at time
  \<open>T\<close>. Through any number of invocations whose clocks never read more than \<open>T + 43200\<close>
  (12 hours), however they end, the mark stays, and neither these invocations nor the one
  that follows them calls the search for \<open>k\<close>: every scheduling decision for \<open>k\<close> finds
  the mark and skips, recording the lookup and one log line and leaving the store as it is,
  so nothing is searched or posted for \<open>k\<close>. An invocation that runs to its end with a
  clock past \<open>T + 43200\<close> prunes the mark (the primary key leaves no other row for \<open>k\<close>),
  and a scheduling decision for a channel without a row inserts a new mark and calls the
  search. (The decisions are stated for a storage that does not fail at these statements;
  when it fails the process exits without searching.)
\<close>

theorem scan_interval:
  "((k, T) \<in> rows_of (channel_check_times d) \<and>
    (\<forall>wo \<in> set runs. \<forall>n. clock (fst wo) n \<le> T + 43200) \<longrightarrow>
      (\<forall>r \<in> set (cycles c (runs @ [final]) d). \<forall>t. SearchCall k t \<notin> set (trace (snd r)))) \<and>
   ((k, T) \<in> rows_of (channel_check_times (store s)) \<and>
    \<not> storage_fault w (length (trace s)) (SelectCheck k) \<longrightarrow>
      process_channel w c (n, k) s =
        (None, s\<lparr>trace := trace s @ [Sql (SelectCheck k) True,
                   Log Debug ''channel checked less than 12 hours ago, skipping'']\<rparr>)) \<and>
   (runApp w c order d = (ReturnNil, s') \<and> keys_distinct (channel_check_times d) \<and>
    (k, T) \<in> rows_of (channel_check_times d) \<and> (\<forall>n. T + 43200 < clock w n) \<longrightarrow>
      (\<exists>rows. channel_check_times (store s') = Some rows \<and> k \<notin> fst ` set rows)) \<and>
   (channel_check_times (store s) = Some rows \<and> k \<notin> fst ` set rows \<and>
    \<not> storage_fault w (length (trace s)) (SelectCheck k) \<and>
    \<not> storage_fault w (Suc (length (trace s))) (InsertCheck k) \<longrightarrow>
      (\<exists>tr. trace (snd (process_channel w c (n, k) s)) =
               trace s @ [Sql (SelectCheck k) True, Sql (InsertCheck k) True,
                 Log Info ''checking for new videos'',
                 SearchCall k (clock w (length (trace s)) - 172800)] @ tr))"
proof -
  have 1: "(k, T) \<in> rows_of (channel_check_times d) \<and>
    (\<forall>wo \<in> set runs. \<forall>n. clock (fst wo) n \<le> T + 43200) \<longrightarrow>
      (\<forall>r \<in> set (cycles c (runs @ [final]) d). \<forall>t. SearchCall k t \<notin> set (trace (snd r)))"
    by (intro impI, elim conjE, rule cycles_skip)
  have 2: "(k, T) \<in> rows_of (channel_check_times (store s)) \<and>
    \<not> storage_fault w (length (trace s)) (SelectCheck k) \<longrightarrow>
      process_channel w c (n, k) s =
        (None, s\<lparr>trace := trace s @ [Sql (SelectCheck k) True,
                   Log Debug ''channel checked less than 12 hours ago, skipping'']\<rparr>)"
    by (intro impI, elim conjE, rule process_channel_skip_rows)
  have 3: "runApp w c order d = (ReturnNil, s') \<and> keys_distinct (channel_check_times d) \<and>
    (k, T) \<in> rows_of (channel_check_times d) \<and> (\<forall>n. T + 43200 < clock w n) \<longrightarrow>
      (\<exists>rows. channel_check_times (store s') = Some rows \<and> k \<notin> fst ` set rows)"
    by (intro impI, elim conjE, rule runApp_prunes_stale)
  have 4: "channel_check_times (store s) = Some rows \<and> k \<notin> fst ` set rows \<and>
    \<not> storage_fault w (length (trace s)) (SelectCheck k) \<and>
    \<not> storage_fault w (Suc (length (trace s))) (InsertCheck k) \<longrightarrow>
      (\<exists>tr. trace (snd (process_channel w c (n, k) s)) =
               trace s @ [Sql (SelectCheck k) True, Sql (InsertCheck k) True,
                 Log Info ''checking for new videos'',
                 SearchCall k (clock w (length (trace s)) - 172800)] @ tr)"
  proof (intro impI, elim conjE)
    assume a: "channel_check_times (store s) = Some rows" "k \<notin> fst ` set rows"
      "\<not> storage_fault w (length (trace s)) (SelectCheck k)"
      "\<not> storage_fault w (Suc (length (trace s))) (InsertCheck k)"
    have "process_channel w c (n, k) s =
            (fst (process_channel w c (n, k) s), snd (process_channel w c (n, k) s))"
      by simp
    from process_channel_scan [OF a this] show "\<exists>tr. trace (snd (process_channel w c (n, k) s)) =
                 trace s @ [Sql (SelectCheck k) True, Sql (InsertCheck k) True,
                   Log Info ''checking for new videos'',
                   SearchCall k (clock w (length (trace s)) - 172800)] @ tr" .
  qed
  show ?thesis by (rule conjI [OF 1 conjI [OF 2 conjI [OF 3 4]]])
qed

theorem scan_interval_witness:
  "(\<forall>t. SearchCall ''UCwpHKudUkP5tNgmMdexB3ow'' t \<notin>
        set (trace (snd (runApp world_soon cli_ex order1 mark_ex)))) \<and>
   (\<forall>t. SearchCall ''UCwpHKudUkP5tNgmMdexB3ow'' t \<notin>
        set (trace (snd (runApp (world_ex 40000) cli_ex order1
                           (store (snd (runApp world_soon cli_ex order1 mark_ex))))))) \<and>
   process_channel world_soon cli_ex (''Mentour Pilot'', ''UCwpHKudUkP5tNgmMdexB3ow'')
       \<lparr>store = mark_ex, trace = []\<rparr> =
     (None, \<lparr>store = mark_ex, trace = [Sql (SelectCheck ''UCwpHKudUkP5tNgmMdexB3ow'') True,
        Log Debug ''channel checked less than 12 hours ago, skipping'']\<rparr>) \<and>
   fst (runApp (world_ex 100000) cli_ex order1 mark_ex) = ReturnNil \<and>
   (\<exists>rows. channel_check_times (store (snd (runApp (world_ex 100000) cli_ex order1 mark_ex)))
              = Some rows \<and> ''UCwpHKudUkP5tNgmMdexB3ow'' \<notin> fst ` set rows) \<and>
   (\<exists>tr. trace (snd (process_channel (world_ex 100100) cli_ex
                       (''Mentour Pilot'', ''UCwpHKudUkP5tNgmMdexB3ow'')
                       \<lparr>store = store (snd (runApp (world_ex 100000) cli_ex order1 mark_ex)),
                          trace = []\<rparr>)) =
      [Sql (SelectCheck ''UCwpHKudUkP5tNgmMdexB3ow'') True,
       Sql (InsertCheck ''UCwpHKudUkP5tNgmMdexB3ow'') True,
       Log Info ''checking for new videos'',
       SearchCall ''UCwpHKudUkP5tNgmMdexB3ow'' (- 72700)] @ tr)"
proof -
  let ?k = "''UCwpHKudUkP5tNgmMdexB3ow''"
  have m: "(?k, 1000) \<in> rows_of (channel_check_times mark_ex)"
    and kd: "keys_distinct (channel_check_times mark_ex)"
    by (simp_all add: mark_ex_def rows_of_def keys_distinct_def)
  have c1: "\<forall>wo \<in> set [(world_soon, order1)]. \<forall>n. clock (fst wo) n \<le> 1000 + 43200"
    by (simp add: world_soon_def min_def)
  have c2: "\<forall>n. 1000 + 43200 < clock (world_ex 100000) n"
    by (simp add: world_ex_def)
  let ?r = "runApp (world_ex 100000) cli_ex order1 mark_ex"
  have f: "fst ?r = ReturnNil"
    by (simp add: run_defs ex_defs order1_def mark_ex_def)
  then have h: "?r = (ReturnNil, snd ?r)" by (metis prod.collapse)
  note t = scan_interval [where k = ?k and T = 1000 and d = mark_ex
      and runs = "[(world_soon, order1)]" and c = cli_ex and final = "(world_ex 40000, order1)"
      and w = "world_ex 100000" and order = order1 and s' = "snd ?r"]
  from t [THEN conjunct1] m c1
  have 1: "\<forall>r \<in> set (cycles cli_ex ([(world_soon, order1)] @ [(world_ex 40000, order1)]) mark_ex).
             \<forall>t. SearchCall ?k t \<notin> set (trace (snd r))"
    by blast
  from t [THEN conjunct2, THEN conjunct2, THEN conjunct1] h kd m c2
  have 3: "\<exists>rows. channel_check_times (store (snd ?r)) = Some rows \<and> ?k \<notin> fst ` set rows"
    by blast
  from 1 have both: "(\<forall>t. SearchCall ?k t \<notin> set (trace (snd (runApp world_soon cli_ex order1 mark_ex)))) \<and>
   (\<forall>t. SearchCall ?k t \<notin>
        set (trace (snd (runApp (world_ex 40000) cli_ex order1
                           (store (snd (runApp world_soon cli_ex order1 mark_ex)))))))"
    by (simp add: Let_def)
  let ?s = "\<lparr>store = mark_ex, trace = []\<rparr>"
  have a2: "(?k, 1000) \<in> rows_of (channel_check_times (store ?s)) \<and>
            \<not> storage_fault world_soon (length (trace ?s)) (SelectCheck ?k)"
    using m by (simp add: world_soon_def world_ex_def)
  from mp [OF scan_interval [where k = ?k and T = 1000 and s = ?s and w = world_soon
        and c = cli_ex and n = "''Mentour Pilot''", THEN conjunct2, THEN conjunct1] a2]
  have 2: "process_channel world_soon cli_ex (''Mentour Pilot'', ?k) ?s =
     (None, \<lparr>store = mark_ex, trace = [Sql (SelectCheck ?k) True,
        Log Debug ''channel checked less than 12 hours ago, skipping'']\<rparr>)"
    by simp
  from 3 obtain rows where
    rows: "channel_check_times (store (snd ?r)) = Some rows" "?k \<notin> fst ` set rows"
    by blast
  let ?s4 = "\<lparr>store = store (snd ?r), trace = []\<rparr>"
  have a4: "channel_check_times (store ?s4) = Some rows \<and> ?k \<notin> fst ` set rows \<and>
      \<not> storage_fault (world_ex 100100) (length (trace ?s4)) (SelectCheck ?k) \<and>
      \<not> storage_fault (world_ex 100100) (Suc (length (trace ?s4))) (InsertCheck ?k)"
    using rows by (simp add: world_ex_def)
  from mp [OF scan_interval [where k = ?k and s = ?s4 and rows = rows
        and w = "world_ex 100100" and c = cli_ex and n = "''Mentour Pilot''",
        THEN conjunct2, THEN conjunct2, THEN conjunct2] a4]
  have 4: "\<exists>tr. trace (snd (process_channel (world_ex 100100) cli_ex
                       (''Mentour Pilot'', ?k) ?s4)) =
      [Sql (SelectCheck ?k) True, Sql (InsertCheck ?k) True,
       Log Info ''checking for new videos'', SearchCall ?k (- 72700)] @ tr"
    by (simp add: world_ex_def)
  from both 2 f 3 4 show ?thesis by (intro conjI) blast+
qed

section \<open>The content of the post\<close>

lemma post_item_trace:
  assumes "post_item w c item s = (r, s')" and "\<not> new_request_fails w (webhook c)"
  shows "\<exists>tr. trace s' = trace s @ [Log Debug ''posting item'',
                  Post (webhook c) (message (UnescapeString w) item)] @ tr \<and>
              (\<forall>u b. Post u b \<notin> set tr)"
proof (cases "webhook_do w (Suc (length (trace s))) (webhook c) (message (UnescapeString w) item)")
  case TransportError
  from post_item_transport_error [OF assms this]
  have "trace s' = trace s @ [Log Debug ''posting item'',
          Post (webhook c) (message (UnescapeString w) item)] @
          [Log Fatal ''error preparing http request'']"
    by simp
  moreover have "\<forall>u b. Post u b \<notin> set [Log Fatal ''error preparing http request'']" by simp
  ultimately show ?thesis by blast
next
  case (Status code)
  from post_item_status [OF assms this] obtain b where
    t: "trace s' = trace s @
          [Log Debug ''posting item'', Post (webhook c) (message (UnescapeString w) item)] @
          ((if code \<noteq> 204 then [Log Error ''unexpected http response code''] else []) @
           [Sql (InsertVideo (VideoId item)) b] @
           (if b then [] else [Log Fatal ''error inserting video into db'']))"
    by auto
  have "\<forall>u b'. Post u b' \<notin> set
          ((if code \<noteq> 204 then [Log Error ''unexpected http response code''] else []) @
           [Sql (InsertVideo (VideoId item)) b] @
           (if b then [] else [Log Fatal ''error inserting video into db'']))"
    by simp
  with t show ?thesis by blast
qed

lemma process_item_posts:
  assumes "process_item w c item s = (r, s')" and "trace s' = trace s @ tr"
    and "Post u b \<in> set tr"
  shows "Kind item = ''youtube#video'' \<and> u = webhook c \<and> b = message (UnescapeString w) item"
proof -
  from process_item_events [OF assms(1)] assms(2)
  have "\<forall>e \<in> set tr. item_event w c item e" by auto
  with assms(3) have "item_event w c item (Post u b)" by blast
  then show ?thesis by (simp add: item_event_def)
qed

lemma process_channel_posts:
  assumes "process_channel w c ch s = (r, s')" and "trace s' = trace s @ tr"
    and "Post u b \<in> set tr"
  shows "u = webhook c \<and>
         (\<exists>item. candidate w item \<and> Kind item = ''youtube#video'' \<and>
            b = message (UnescapeString w) item)"
  using assms(1)
proof (cases rule: process_channel_cases)
  case (query_failed e s1)
  with assms(2,3) show ?thesis by auto
next
  case (skipped rs s1)
  with assms(2,3) show ?thesis by auto
next
  case (insert_failed e s1 s2)
  with assms(2,3) show ?thesis by auto
next
  case (scanned rs s1 s2 s4)
  let ?t = "clock w (length (trace s)) - 172800"
  let ?tr4 = "[Sql (SelectCheck (snd ch)) True, Sql (InsertCheck (snd ch)) True,
      Log Info ''checking for new videos'', SearchCall (snd ch) ?t]"
  have t4: "trace s4 = trace s @ ?tr4"
    using scanned(2,4,5) by simp
  show ?thesis
  proof (cases "search_do w (Suc (length (trace s2))) (snd ch) ?t")
    case None
    with scanned(6) have "s' = s4" by simp
    with t4 assms(2,3) show ?thesis by auto
  next
    case (Some items)
    with scanned(6) have "process_items w c items s4 = (r, s')" by simp
    from process_items_events [OF this] obtain tr' where
      tr': "trace s' = trace s4 @ tr'"
           "\<forall>e \<in> set tr'. \<exists>item \<in> set items. item_event w c item e"
      by blast
    from tr'(1) t4 assms(2) have "tr = ?tr4 @ tr'" by simp
    with assms(3) have "Post u b \<in> set tr'" by auto
    with tr'(2) obtain item where i: "item \<in> set items" "item_event w c item (Post u b)"
      by blast
    from Some i(1) have "candidate w item" unfolding candidate_def by blast
    with i(2) show ?thesis by (auto simp: item_event_def)
  qed
qed

lemma process_channels_posts:
  "process_channels w c order s = (r, s') \<Longrightarrow> trace s' = trace s @ tr \<Longrightarrow>
   Post u b \<in> set tr \<Longrightarrow>
     u = webhook c \<and>
     (\<exists>item. candidate w item \<and> Kind item = ''youtube#video'' \<and>
        b = message (UnescapeString w) item)"
proof (induction order arbitrary: s tr)
  case Nil
  then show ?case by simp
next
  case (Cons ch order)
  obtain r1 s1 where p: "process_channel w c ch s = (r1, s1)"
    by (cases "process_channel w c ch s")
  from process_channel_events [OF p] obtain tr1 where tr1: "trace s1 = trace s @ tr1"
    by blast
  show ?case
  proof (cases r1)
    case (Some a)
    with Cons.prems p have "s' = s1" by simp
    with Cons.prems(2,3) process_channel_posts [OF p, of tr u b] show ?thesis by simp
  next
    case None
    with Cons.prems p have q: "process_channels w c order s1 = (r, s')" by simp
    from process_channels_events [OF q] obtain tr2 where tr2: "trace s' = trace s1 @ tr2"
      by blast
    with tr1 Cons.prems(2) have "tr = tr1 @ tr2" by simp
    with Cons.prems(3) have "Post u b \<in> set tr1 \<or> Post u b \<in> set tr2" by simp
    then show ?thesis
    proof
      assume "Post u b \<in> set tr1"
      from process_channel_posts [OF p tr1 this] show ?thesis .
    next
      assume "Post u b \<in> set tr2"
      from Cons.IH [OF q tr2 this] show ?thesis .
    qed
  qed
qed

lemma no_post_bootstrap: "bootstrap_event e \<Longrightarrow> e \<noteq> Post u b"
  by (cases e) auto

lemma no_post_sweep: "sweep_event e \<Longrightarrow> e \<noteq> Post u b"
  by (cases e) auto

lemma runApp_candidate_posts:
  assumes "runApp w c order d = (out, s)" and "Post u b \<in> set (trace s)"
  shows "u = webhook c \<and>
         (\<exists>item. candidate w item \<and> Kind item = ''youtube#video'' \<and>
            b = message (UnescapeString w) item)"
  using assms(1)
proof (cases rule: runApp_cases)
  case open_failed
  with assms(2) show ?thesis by (simp add: start_def)
next
  case bootstrap_failed
  from bootstrap_events [OF bootstrap_failed(2)] assms(2) show ?thesis
    by (auto simp: start_def dest: no_post_bootstrap)
next
  case (service_failed s1)
  from bootstrap_events [OF service_failed(2)] assms(2) service_failed(3) show ?thesis
    by (auto simp: start_def dest: no_post_bootstrap)
next
  case (loop_ended a s1)
  from bootstrap_events [OF loop_ended(2)] obtain tb where
    tb: "trace s1 = trace (start d) @ tb" "\<forall>e \<in> set tb. bootstrap_event e" by blast
  from process_channels_events [OF loop_ended(3)] obtain tl where
    tl: "trace s = trace s1 @ tl" by blast
  from tb tl assms(2) have "Post u b \<in> set tl"
    by (auto simp: start_def dest: no_post_bootstrap)
  from process_channels_posts [OF loop_ended(3) tl this] show ?thesis .
next
  case (swept r s1 s2)
  from bootstrap_events [OF swept(1)] obtain tb where
    tb: "trace s1 = trace (start d) @ tb" "\<forall>e \<in> set tb. bootstrap_event e" by blast
  from process_channels_events [OF swept(2)] obtain tl where
    tl: "trace s2 = trace s1 @ tl" by blast
  from cleanup_trace [OF swept(3)] obtain ts where
    ts: "trace s = trace s2 @ ts" "\<forall>e \<in> set ts. sweep_event e" by blast
  from tb tl ts assms(2) have "Post u b \<in> set tl"
    by (auto simp: start_def dest: no_post_bootstrap no_post_sweep)
  from process_channels_posts [OF swept(2) tl this] show ?thesis .
qed

lemma process_item_announced:
  assumes "process_item w c item s = (r, s')" and "trace s' = trace s @ tr"
    and "Sql (InsertVideo v) ok \<in> set tr"
  shows "v = VideoId item \<and> Post (webhook c) (message (UnescapeString w) item) \<in> set tr"
proof -
  from process_item_events [OF assms(1)] assms(2)
  have ev: "\<forall>e \<in> set tr. item_event w c item e" by auto
  with assms(3) have "item_event w c item (Sql (InsertVideo v) ok)" by blast
  then have k: "Kind item = ''youtube#video''" and v: "v = VideoId item"
    by (auto simp: item_event_def)
  obtain res s1 where q: "db_exec w (SelectVideo (VideoId item)) s = (res, s1)"
    by (cases "db_exec w (SelectVideo (VideoId item)) s")
  then have "\<exists>b0. trace s1 = trace s @ [Sql (SelectVideo (VideoId item)) b0]"
    by (auto elim!: db_exec_cases)
  then obtain b0 where t1: "trace s1 = trace s @ [Sql (SelectVideo (VideoId item)) b0]" ..
  have "Post (webhook c) (message (UnescapeString w) item) \<in> set tr"
  proof (cases res)
    case (Inl e)
    with assms(1) k q have "s' = logmsg Fatal ''error querying db'' s1"
      by (simp add: process_item_def)
    with t1 assms(2) have "tr = [Sql (SelectVideo (VideoId item)) b0, Log Fatal ''error querying db'']"
      by simp
    with assms(3) show ?thesis by simp
  next
    case (Inr rs)
    show ?thesis
    proof (cases "rs = []")
      case False
      let ?s2 = "logmsg Debug ''item already posted'' s1"
      from assms(1) k q Inr False have
        "s' = logmsg Fatal ''error closing rows after SELECT'' ?s2 \<or> s' = emit (Sleep 10) ?s2"
        by (auto simp: process_item_def split: if_splits)
      with t1 assms(2) have
        "tr = [Sql (SelectVideo (VideoId item)) b0, Log Debug ''item already posted'',
               Log Fatal ''error closing rows after SELECT''] \<or>
         tr = [Sql (SelectVideo (VideoId item)) b0, Log Debug ''item already posted'', Sleep 10]"
        by auto
      with assms(3) show ?thesis by auto
    next
      case True
      obtain r2 s2 where p: "post_item w c item s1 = (r2, s2)"
        by (cases "post_item w c item s1")
      show ?thesis
      proof (cases "new_request_fails w (webhook c)")
        case nf: True
        with p have "r2 = Some Exit1"
          "s2 = logmsg Fatal ''error preparing http request'' (logmsg Debug ''posting item'' s1)"
          by (auto simp: post_item_def Let_def)
        with assms(1) k q Inr True p have "s' = s2" by (simp add: process_item_def)
        with \<open>s2 = _\<close> t1 assms(2) have "tr = [Sql (SelectVideo (VideoId item)) b0,
            Log Debug ''posting item'', Log Fatal ''error preparing http request'']"
          by simp
        with assms(3) show ?thesis by simp
      next
        case False
        from post_item_trace [OF p False] obtain tr2 where
          t2: "trace s2 = trace s1 @ [Log Debug ''posting item'',
                 Post (webhook c) (message (UnescapeString w) item)] @ tr2"
          by blast
        from assms(1) k q Inr True p have "\<exists>tr3. trace s' = trace s2 @ tr3"
          by (cases r2) (auto simp: process_item_def split: if_splits)
        then obtain tr3 where "trace s' = trace s2 @ tr3" by blast
        with t1 t2 assms(2) have "tr = [Sql (SelectVideo (VideoId item)) b0] @
            [Log Debug ''posting item'', Post (webhook c) (message (UnescapeString w) item)] @
            tr2 @ tr3"
          by simp
        then show ?thesis by simp
      qed
    qed
  qed
  with v show ?thesis by blast
qed

text \<open>
  C5 (amended). For every announced video candidate, the content posted to the webhook is
  the JSON text \<open>{"content": "New video from **C**\nhttps://youtu.be/V"}\<close>, where \<open>C\<close> is
  the candidate's channel title with its HTML entity escaping undone and \<open>V\<close> its video
  identifier: posting a candidate records exactly one post, to the configured webhook, with
  the message of that candidate; handling a search result posts nothing but the message of
  that result, only when it is a video, and never attempts to record it without having
  posted it; every post of an invocation carries the message of a video among the results
  of its search calls. The message contains the unescaped channel title, the video
  identifier and the watch URL built from it. The video title is not part of the message:
  candidates that differ in their titles only get the same content.
\<close>

theorem message_content:
  \<open>(post_item w c item s = (r, s1) \<and> \<not> new_request_fails w (webhook c) \<longrightarrow>
      (\<exists>tr. trace s1 = trace s @ [Log Debug ''posting item'',
                Post (webhook c) (message (UnescapeString w) item)] @ tr \<and>
            (\<forall>u b. Post u b \<notin> set tr))) \<and>
   (process_item w c item s = (r, s1) \<longrightarrow>
      (\<forall>tr. trace s1 = trace s @ tr \<longrightarrow>
         (\<forall>u b. Post u b \<in> set tr \<longrightarrow>
            Kind item = ''youtube#video'' \<and> u = webhook c \<and>
            b = message (UnescapeString w) item) \<and>
         (\<forall>v ok. Sql (InsertVideo v) ok \<in> set tr \<longrightarrow>
            v = VideoId item \<and>
            Post (webhook c) (message (UnescapeString w) item) \<in> set tr))) \<and>
   (runApp w c order d = (out, s2) \<longrightarrow>
      (\<forall>u b. Post u b \<in> set (trace s2) \<longrightarrow>
         u = webhook c \<and>
         (\<exists>item'. candidate w item' \<and> Kind item' = ''youtube#video'' \<and>
            b = message (UnescapeString w) item'))) \<and>
   message f item =
     ''{"content": "New video from **'' @ f (ChannelTitle item) @ ''**'' @ [CHR 0x5C] @
     ''nhttps://youtu.be/'' @ VideoId item @ ''"}'' \<and>
   contains (message f item) (f (ChannelTitle item)) \<and>
   contains (message f item) (''https://youtu.be/'' @ VideoId item) \<and>
   contains (message f item) (VideoId item) \<and>
   message f (item\<lparr>Title := t\<rparr>) = message f item\<close>
proof -
  have 1: "post_item w c item s = (r, s1) \<and> \<not> new_request_fails w (webhook c) \<longrightarrow>
      (\<exists>tr. trace s1 = trace s @ [Log Debug ''posting item'',
                Post (webhook c) (message (UnescapeString w) item)] @ tr \<and>
            (\<forall>u b. Post u b \<notin> set tr))"
    by (intro impI, elim conjE, rule post_item_trace)
  have 2: "process_item w c item s = (r, s1) \<longrightarrow>
      (\<forall>tr. trace s1 = trace s @ tr \<longrightarrow>
         (\<forall>u b. Post u b \<in> set tr \<longrightarrow>
            Kind item = ''youtube#video'' \<and> u = webhook c \<and>
            b = message (UnescapeString w) item) \<and>
         (\<forall>v ok. Sql (InsertVideo v) ok \<in> set tr \<longrightarrow>
            v = VideoId item \<and>
            Post (webhook c) (message (UnescapeString w) item) \<in> set tr))"
  proof (intro impI allI conjI)
    fix tr u b
    assume "process_item w c item s = (r, s1)" "trace s1 = trace s @ tr" "Post u b \<in> set tr"
    from process_item_posts [OF this]
    show "Kind item = ''youtube#video''" "u = webhook c" "b = message (UnescapeString w) item"
      by blast+
  next
    fix tr v ok
    assume "process_item w c item s = (r, s1)" "trace s1 = trace s @ tr"
      "Sql (InsertVideo v) ok \<in> set tr"
    from process_item_announced [OF this]
    show "v = VideoId item" "Post (webhook c) (message (UnescapeString w) item) \<in> set tr"
      by blast+
  qed
  have 3: "runApp w c order d = (out, s2) \<longrightarrow>
      (\<forall>u b. Post u b \<in> set (trace s2) \<longrightarrow>
         u = webhook c \<and>
         (\<exists>item'. candidate w item' \<and> Kind item' = ''youtube#video'' \<and>
            b = message (UnescapeString w) item'))"
    by (intro impI allI, rule runApp_candidate_posts)
  have 4: \<open>message f item =
     ''{"content": "New video from **'' @ f (ChannelTitle item) @ ''**'' @ [CHR 0x5C] @
     ''nhttps://youtu.be/'' @ VideoId item @ ''"}''\<close>
    by (simp add: message_def)
  have 5: "contains (message f item) (f (ChannelTitle item))"
    unfolding message_def by (rule contains_middle)
  have \<open>message f item =
      (''{"content": "New video from **'' @ f (ChannelTitle item) @ ''**'' @ [CHR 0x5C] @ ''n'') @
      (''https://youtu.be/'' @ VideoId item) @ ''"}''\<close>
    by (simp add: message_def)
  then have 6: "contains (message f item) (''https://youtu.be/'' @ VideoId item)"
    using contains_middle by metis
  have \<open>message f item =
      (''{"content": "New video from **'' @ f (ChannelTitle item) @ ''**'' @ [CHR 0x5C] @
       ''nhttps://youtu.be/'') @ VideoId item @ ''"}''\<close>
    by (simp add: message_def)
  then have 7: "contains (message f item) (VideoId item)"
    using contains_middle by metis
  have 8: "message f (item\<lparr>Title := t\<rparr>) = message f item"
    by (simp add: message_def)
  show ?thesis
    by (rule conjI [OF 1 conjI [OF 2 conjI [OF 3 conjI [OF 4 conjI [OF 5 conjI [OF 6
          conjI [OF 7 8]]]]]]])
qed

theorem message_content_witness:
  \<open>unescape_basic (ChannelTitle item_v2) = ''Planes & Pilots'' \<and>
   message unescape_basic item_v2 =
     ''{"content": "New video from **Planes & Pilots**'' @ [CHR 0x5C] @
     ''nhttps://youtu.be/v2"}'' \<and>
   (\<exists>tr. trace (snd (post_item world_amp cli_ex item_v2 state_ex)) =
      trace state_ex @ [Log Debug ''posting item'',
        Post (webhook cli_ex) (message unescape_basic item_v2)] @ tr) \<and>
   Post (webhook cli_ex) (message unescape_basic item_v2)
     \<in> set (trace (snd (runApp world_amp cli_ex order1 fresh))) \<and>
   candidate world_amp item_v2 \<and>
   contains (message unescape_basic item_v2) ''Planes & Pilots'' \<and>
   contains (message unescape_basic item_v2) ''https://youtu.be/v2''\<close>
proof -
  let ?m = "message unescape_basic item_v2"
  let ?p = "post_item world_amp cli_ex item_v2 state_ex"
  let ?r = "runApp world_amp cli_ex order1 fresh"
  have un: "UnescapeString world_amp = unescape_basic"
    by (simp add: world_amp_def world_ex_def)
  have u: "unescape_basic (ChannelTitle item_v2) = ''Planes & Pilots''"
    by code_simp
  have m: \<open>?m = ''{"content": "New video from **Planes & Pilots**'' @ [CHR 0x5C] @
     ''nhttps://youtu.be/v2"}''\<close>
    by (simp add: message_def u) (simp add: item_v2_def)
  have v: "''https://youtu.be/'' @ VideoId item_v2 = ''https://youtu.be/v2''"
    by (simp add: item_v2_def)
  have nf: "post_item world_amp cli_ex item_v2 state_ex = (fst ?p, snd ?p) \<and>
            \<not> new_request_fails world_amp (webhook cli_ex)"
    by (simp add: world_amp_def world_ex_def)
  note t = message_content [of world_amp cli_ex item_v2 state_ex "fst ?p" "snd ?p" order1
      fresh "fst ?r" "snd ?r" unescape_basic "''Other''"]
  from mp [OF t [THEN conjunct1] nf]
  have 1: "\<exists>tr. trace (snd ?p) = trace state_ex @ [Log Debug ''posting item'',
        Post (webhook cli_ex) ?m] @ tr"
    unfolding un by blast
  from t have 5: "contains ?m (unescape_basic (ChannelTitle item_v2))"
    and 6: "contains ?m (''https://youtu.be/'' @ VideoId item_v2)"
    by blast+
  have p: "Post (webhook cli_ex) ?m \<in> set (trace (snd ?r))"
    by code_simp
  have c: "candidate world_amp item_v2"
    unfolding candidate_def
    by (rule exI [of _ 0], rule exI [of _ "''UCwpHKudUkP5tNgmMdexB3ow''"], rule exI [of _ 0],
        rule exI [of _ "[item_v2]"]) (simp add: world_amp_def)
  from u m 1 p c 5 6 show ?thesis
    unfolding u v by (intro conjI)
qed

text \<open>The claim as stated fails: for the video \<open>v1\<close> with title \<open>Foo &amp; Bar\<close>, whose
  unescaped title is \<open>Foo & Bar\<close>, the content posted in a run over the real channel table
  does not contain \<open>Foo & Bar\<close>.\<close>

theorem message_title_counterexample:
  \<open>Title item_v1 = ''Foo &amp; Bar'' \<and> unescape_basic (Title item_v1) = ''Foo & Bar'' \<and>
   Post (webhook cli_ex) (message unescape_basic item_v1)
     \<in> set (trace (snd (runApp (world_ex 1000) cli_ex channelIds fresh))) \<and>
   \<not> contains (message unescape_basic item_v1) ''Foo & Bar''\<close>
  by code_simp

section \<open>No duplicate record\<close>

lemma inserts_ok_Nil [simp]: "inserts_ok v [] = 0"
  by (simp add: inserts_ok_def)

lemma inserts_ok_append [simp]: "inserts_ok v (a @ b) = inserts_ok v a + inserts_ok v b"
  by (induction a) (simp_all add: inserts_ok_def)

lemma inserts_ok_single:
  "inserts_ok v [e] = (if e = Sql (InsertVideo v) True then 1 else 0)"
  by (simp add: inserts_ok_def)

lemma inserts_ok_none:
  "\<forall>e \<in> set tr. e \<noteq> Sql (InsertVideo v) True \<Longrightarrow> inserts_ok v tr = 0"
  by (induction tr) (simp_all add: inserts_ok_def)

lemma keys_rows: "keys t = fst ` rows_of t"
  by (simp add: keys_def rows_of_def split: option.splits)

lemma sql_insert_video:
  assumes "sql (InsertVideo v) now d = Inr (d', rs)"
  shows "v \<notin> keys (videos_posted d) \<and> v \<in> keys (videos_posted d')"
  using assms
  by (auto simp: insert_row_def keys_def split: option.splits if_splits sum.splits)

lemma loop_steps_inserts:
  assumes "loop_steps w s s'"
  shows "(v \<in> keys (videos_posted (store s)) \<longrightarrow>
            v \<in> keys (videos_posted (store s')) \<and>
            inserts_ok v (trace s') = inserts_ok v (trace s)) \<and>
         (inserts_ok v (trace s') = inserts_ok v (trace s) \<or>
          inserts_ok v (trace s') = Suc (inserts_ok v (trace s)) \<and>
          v \<in> keys (videos_posted (store s')))"
  using assms
proof (induction rule: loop_steps.induct)
  case (same s)
  then show ?case by simp
next
  case (emitted s s1 e)
  from emitted(2) have "e \<noteq> Sql (InsertVideo v) True" by auto
  then have "inserts_ok v (trace (emit e s1)) = inserts_ok v (trace s1)"
    by (simp add: inserts_ok_single)
  with emitted.IH show ?case by simp
next
  case (executed s s1 q res s2)
  from executed(3) show ?case
  proof (cases rule: db_exec_cases)
    case fault
    then have "inserts_ok v (trace s2) = inserts_ok v (trace s1)" "store s2 = store s1"
      by (simp_all add: inserts_ok_single)
    with executed.IH show ?thesis by simp
  next
    case (error e)
    then have "inserts_ok v (trace s2) = inserts_ok v (trace s1)" "store s2 = store s1"
      by (simp_all add: inserts_ok_single)
    with executed.IH show ?thesis by simp
  next
    case (ok d rs)
    show ?thesis
    proof (cases "q = InsertVideo v")
      case True
      with ok(2) sql_insert_video
      have k: "v \<notin> keys (videos_posted (store s1))" "v \<in> keys (videos_posted d)"
        by blast+
      from ok(4) True have "inserts_ok v (trace s2) = Suc (inserts_ok v (trace s1))"
        "store s2 = d"
        by (simp_all add: inserts_ok_single)
      with executed.IH k show ?thesis by auto
    next
      case False
      from sql_loop_rows [OF ok(2) executed(2)]
      have "keys (videos_posted (store s1)) \<subseteq> keys (videos_posted d)"
        by (auto simp: keys_rows)
      moreover from ok(4) False have "inserts_ok v (trace s2) = inserts_ok v (trace s1)"
        "store s2 = d"
        by (simp_all add: inserts_ok_single)
      ultimately show ?thesis using executed.IH by auto
    qed
  qed
qed

lemma bootstrap_inserts:
  assumes "bootstrap w s = (r, s')"
  shows "inserts_ok v (trace s') = inserts_ok v (trace s)"
proof -
  from bootstrap_events [OF assms] obtain tr where
    tr: "trace s' = trace s @ tr" "\<forall>e \<in> set tr. bootstrap_event e" by blast
  from tr(2) have "\<forall>e \<in> set tr. e \<noteq> Sql (InsertVideo v) True" by fastforce
  with tr(1) show ?thesis by (simp add: inserts_ok_none)
qed

lemma cleanup_inserts:
  assumes "cleanup w s = (r, s')"
  shows "inserts_ok v (trace s') = inserts_ok v (trace s)"
proof -
  from cleanup_trace [OF assms] obtain tr where
    tr: "trace s' = trace s @ tr" "\<forall>e \<in> set tr. sweep_event e" by blast
  from tr(2) have "\<forall>e \<in> set tr. e \<noteq> Sql (InsertVideo v) True" by fastforce
  with tr(1) show ?thesis by (simp add: inserts_ok_none)
qed

lemma cleanup_store:
  assumes "cleanup w s = (r, s')"
  shows "(keys_distinct (videos_posted (store s)) \<longrightarrow> keys_distinct (videos_posted (store s'))) \<and>
         (Sql DeleteVideos True \<notin> set (trace s') \<longrightarrow> store s' = store s)"
proof -
  let ?s1 = "logmsg Debug ''cleaning db'' s"
  obtain res2 s2 where e2: "db_exec w DeleteVideos ?s1 = (res2, s2)"
    by (cases "db_exec w DeleteVideos ?s1")
  obtain res3 s3 where e3: "db_exec w DeleteChecks s2 = (res3, s3)"
    by (cases "db_exec w DeleteChecks s2")
  obtain res4 s4 where e4: "db_exec w Vacuum s3 = (res4, s4)"
    by (cases "db_exec w Vacuum s3")
  note k2 = db_exec_keys_distinct [OF e2]
  note k3 = db_exec_keys_distinct [OF e3]
  note k4 = db_exec_keys_distinct [OF e4]
  have st: "store s' = store s2 \<or> store s' = store s3 \<or> store s' = store s4"
    using assms e2 e3 e4 by (auto simp: cleanup_def Let_def split: sum.splits)
  have 1: "keys_distinct (videos_posted (store s)) \<longrightarrow> keys_distinct (videos_posted (store s'))"
    using st k2 k3 k4 by auto
  have 2: "store s' = store s" if n: "Sql DeleteVideos True \<notin> set (trace s')"
  proof (cases res2)
    case (Inl e)
    with e2 have "store s2 = store s" by (cases rule: db_exec_cases) auto
    moreover from assms e2 Inl have "s' = logmsg Fatal
        ''error deleting old videos_posted video records from db'' s2"
      by (simp add: cleanup_def Let_def)
    ultimately show ?thesis by simp
  next
    case (Inr rs)
    with e2 have "Sql DeleteVideos True \<in> set (trace s2)"
      by (cases rule: db_exec_cases) auto
    moreover from e3 have "\<exists>b. trace s3 = trace s2 @ [Sql DeleteChecks b]"
      by (cases rule: db_exec_cases) auto
    moreover from e4 have "\<exists>b. trace s4 = trace s3 @ [Sql Vacuum b]"
      by (cases rule: db_exec_cases) auto
    moreover from assms e2 e3 e4 Inr have
      "s' = logmsg Fatal ''error deleting old channel_check_times records from db'' s3 \<or>
       s' = logmsg Fatal ''error vacuuming db'' s4 \<or> s' = s4"
      by (auto simp: cleanup_def Let_def split: sum.splits)
    ultimately have "Sql DeleteVideos True \<in> set (trace s')" by auto
    with n show ?thesis by blast
  qed
  from 1 2 show ?thesis by blast
qed

lemma start_inserts [simp]: "inserts_ok v (trace (start d)) = 0"
  by (simp add: start_def inserts_ok_def)

lemma runApp_inserts:
  assumes "runApp w c order d = (out, s)"
  shows "inserts_ok v (trace s) \<le> 1 \<and>
         (v \<in> keys (videos_posted d) \<longrightarrow> inserts_ok v (trace s) = 0) \<and>
         (inserts_ok v (trace s) = 1 \<longrightarrow>
            v \<in> keys (videos_posted (store s)) \<or> Sql DeleteVideos True \<in> set (trace s))"
proof -
  have loop: "inserts_ok v (trace s2) \<le> 1 \<and>
         (v \<in> keys (videos_posted d) \<longrightarrow> inserts_ok v (trace s2) = 0) \<and>
         (inserts_ok v (trace s2) = 1 \<longrightarrow> v \<in> keys (videos_posted (store s2)))"
    if b: "bootstrap w (start d) = (None, s1)" and l: "loop_steps w s1 s2" for s1 s2
  proof -
    from bootstrap_inserts [OF b] have i1: "inserts_ok v (trace s1) = 0" by simp
    from bootstrap_store [OF b] have
      k1: "v \<in> keys (videos_posted d) \<longrightarrow> v \<in> keys (videos_posted (store s1))"
      by (auto simp: keys_rows start_def)
    from loop_steps_inserts [OF l, of v] i1 k1 show ?thesis by auto
  qed
  from assms show ?thesis
  proof (cases rule: runApp_cases)
    case open_failed
    then show ?thesis by simp
  next
    case bootstrap_failed
    from bootstrap_inserts [OF bootstrap_failed(2)] show ?thesis by simp
  next
    case (service_failed s1)
    from bootstrap_inserts [OF service_failed(2)] service_failed(3) show ?thesis
      by (simp add: inserts_ok_single)
  next
    case (loop_ended a s1)
    from loop [OF loop_ended(2) process_channels_steps [OF loop_ended(3)]] show ?thesis
      by blast
  next
    case (swept r s1 s2)
    note l = loop [OF swept(1) process_channels_steps [OF swept(2)]]
    note i = cleanup_inserts [OF swept(3), of v]
    note st = cleanup_store [OF swept(3)]
    from l i st show ?thesis by auto
  qed
qed



lemma cycles_inserts:
  "\<forall>r \<in> set (cycles c runs d). inserts_ok v (trace (snd r)) \<le> 1"
proof (induction runs arbitrary: d)
  case Nil
  then show ?case by simp
next
  case (Cons wo runs)
  let ?r = "runApp (fst wo) c (snd wo) d"
  have h: "?r = (fst ?r, snd ?r)" by simp
  from runApp_inserts [OF h, of v] Cons.IH [of "store (snd ?r)"] show ?case
    by (simp add: Let_def)
qed









end
